theory Spec2Isabelle
  imports
    Main
    "HOL-Library.Multiset"
    "HOL-Library.Sublist"
    "HOL-Library.Char_ord"
    "HOL-Library.List_Lexorder"
    "HOL-Library.Product_Lexorder"
begin

section \<open>Shared types (types/api)\<close>

text \<open>
  The two configured backends, \<^verbatim>\<open>'notion' | 'asana'\<close>, in the order of
  \<^verbatim>\<open>SERVICE_CONFIGS\<close>.
\<close>

datatype MCPService = notion | asana

text \<open>
  \<^verbatim>\<open>interface SearchResult\<close>. The optional fields are \<open>None\<close> when absent. The field
  \<^verbatim>\<open>id\<close> is called \<open>rid\<close> here.
\<close>

record SearchResult =
  rid :: string
  title :: string
  content :: string
  source :: MCPService
  url :: "string option"
  lastModified :: "string option"

text \<open>
  Thrown values: \<^verbatim>\<open>new ApiError(message, statusCode?)\<close> and a plain
  \<^verbatim>\<open>new Error(message)\<close>.
\<close>

datatype exn = ApiError string "nat option" | Error string

text \<open>
  \<^verbatim>\<open>error instanceof Error ? error.message : 'Unknown error'\<close>, for a value that is
  an Error.
\<close>

fun errorMessage :: "exn \<Rightarrow> string" where
  "errorMessage (ApiError m _) = m"
| "errorMessage (Error m) = m"

section \<open>Strings\<close>

text \<open>
  \<^verbatim>\<open>String.prototype.trim\<close> on strings of 8-bit characters: tab, line feed,
  vertical tab, form feed, carriage return, space and the no-break space are removed
  at both ends.
\<close>

definition isWhiteSpace :: "char \<Rightarrow> bool" where
  "isWhiteSpace c \<longleftrightarrow> c \<in> set [CHR 0x09, CHR 0x0A, CHR 0x0B, CHR 0x0C, CHR 0x0D, CHR 0x20, CHR 0xA0]"

definition trim :: "string \<Rightarrow> string" where
  "trim s = rev (dropWhile isWhiteSpace (rev (dropWhile isWhiteSpace s)))"

text \<open>
  The test \<^verbatim>\<open>a.lastModified && ...\<close>: an absent field and the empty string are falsy.
\<close>

fun truthy :: "string option \<Rightarrow> bool" where
  "truthy (Some s) = (s \<noteq> [])"
| "truthy None = False"

section \<open>Array.prototype.sort\<close>

text \<open>
  A comparator returns a number or NaN (\<open>None\<close>). The language calls it consistent for
  a collection of values when it never returns NaN on them and, writing \<open>a < b\<close>,
  \<open>a = b\<close>, \<open>a > b\<close> for a negative, zero and positive result on \<open>(a, b)\<close>: every
  \<open>a = a\<close>; \<open>a = b\<close> gives \<open>b = a\<close>; and each of the three relations is transitive.
  (That it returns the same result whenever it is called on the same pair is true of
  every function here.)
\<close>

fun negative :: "int option \<Rightarrow> bool" where
  "negative (Some v) = (v < 0)"
| "negative None = False"

fun positive :: "int option \<Rightarrow> bool" where
  "positive (Some v) = (0 < v)"
| "positive None = False"

definition consistent :: "('a \<Rightarrow> 'a \<Rightarrow> int option) \<Rightarrow> 'a list \<Rightarrow> bool" where
  "consistent cmp xs \<longleftrightarrow>
     (\<forall>a\<in>set xs. \<forall>b\<in>set xs. cmp a b \<noteq> None)
   \<and> (\<forall>a\<in>set xs. cmp a a = Some 0)
   \<and> (\<forall>a\<in>set xs. \<forall>b\<in>set xs. cmp a b = Some 0 \<longrightarrow> cmp b a = Some 0)
   \<and> (\<forall>a\<in>set xs. \<forall>b\<in>set xs. \<forall>c\<in>set xs.
         cmp a b = Some 0 \<and> cmp b c = Some 0 \<longrightarrow> cmp a c = Some 0)
   \<and> (\<forall>a\<in>set xs. \<forall>b\<in>set xs. \<forall>c\<in>set xs.
         negative (cmp a b) \<and> negative (cmp b c) \<longrightarrow> negative (cmp a c))
   \<and> (\<forall>a\<in>set xs. \<forall>b\<in>set xs. \<forall>c\<in>set xs.
         positive (cmp a b) \<and> positive (cmp b c) \<longrightarrow> positive (cmp a c))"

text \<open>
  The number the sort works with: NaN counts as \<open>+0\<close>.
\<close>

fun number :: "int option \<Rightarrow> int" where
  "number (Some v) = v"
| "number None = 0"

text \<open>
  \<^verbatim>\<open>Array.prototype.sort(compareFn)\<close>. For a consistent comparator the language fixes
  the result: the elements in ascending order of the comparator, those that compare
  equal in their original order. That is the list a stable insertion sort builds, which
  puts each element in front of the first element it does not have to follow. For a
  comparator that is not consistent the order is left to the engine; \<open>engine\<close> is
  what the engine at hand makes of the list, and it counts only when it is a
  permutation of the list.
\<close>

fun insert_by :: "('a \<Rightarrow> 'a \<Rightarrow> int option) \<Rightarrow> 'a \<Rightarrow> 'a list \<Rightarrow> 'a list" where
  "insert_by cmp x [] = [x]"
| "insert_by cmp x (y # ys) =
     (if number (cmp x y) \<le> 0 then x # y # ys else y # insert_by cmp x ys)"

definition array_sort ::
  "('a list \<Rightarrow> 'a list) \<Rightarrow> ('a \<Rightarrow> 'a \<Rightarrow> int option) \<Rightarrow> 'a list \<Rightarrow> 'a list" where
  "array_sort engine cmp xs =
     (if consistent cmp xs then foldr (insert_by cmp) xs []
      else if mset (engine xs) = mset xs then engine xs
      else xs)"

section \<open>The environment\<close>

text \<open>
  Content blocks of the model protocol. A tool-use block carries the optional
  \<^verbatim>\<open>name\<close>, the \<^verbatim>\<open>query\<close> member of its \<^verbatim>\<open>input\<close> when that is a string, and the
  optional \<^verbatim>\<open>toolUseId\<close>. A tool-result block carries the id and either a text or
  the JSON payload (\<open>None\<close> is \<^verbatim>\<open>null\<close>).
\<close>

datatype role = user | assistant

datatype ToolResultContent = text_content string | json_content "SearchResult list option"

datatype ContentBlock =
    TextBlock string
  | ToolUseBlock "string option" "string option" "string option"
  | ToolResultBlock string ToolResultContent

type_synonym ConversationMessage = "role \<times> ContentBlock list"

text \<open>
  \<^verbatim>\<open>ConverseCommandInput\<close>: model id, messages, the optional system prompt and the
  optional tool configuration (the declared tools, by name).
\<close>

record ConverseCommandInput =
  in_modelId :: string
  in_messages :: "ConversationMessage list"
  in_system :: "string option"
  in_toolConfig :: "string list option"

text \<open>
  The reply of \<^verbatim>\<open>client.send\<close>: \<^verbatim>\<open>response.output?.message\<close> (its content, when
  there is a message) and \<^verbatim>\<open>response.stopReason\<close>.
\<close>

record ConverseResponse =
  out_message :: "ContentBlock list option"
  stopReason :: string

text \<open>
  Everything outside the modelled files is an oracle, indexed by how many times it has
  been consulted, so that two calls with the same arguments may differ:
  \<^item> \<open>send\<close>: \<^verbatim>\<open>BedrockRuntimeClient.send\<close>; \<open>Inl m\<close> is a thrown Error with message \<open>m\<close>;
  \<^item> \<open>searchService\<close>: \<^verbatim>\<open>mcpClientManager.searchService(service, query)\<close>; \<open>Inl m\<close> is
    the Error it rethrows;
  \<^item> \<open>now\<close>: the readings of \<^verbatim>\<open>new Date()\<close>;
  \<^item> \<open>genId\<close>: the identifier \<^verbatim>\<open>conv_${Date.now()}_${Math.random()...}\<close>.

  Three functions of the host are parameters as well:
  \<^item> \<open>getTime\<close>: \<^verbatim>\<open>new Date(s).getTime()\<close>, the milliseconds of the date a string
    denotes, \<open>None\<close> (NaN) for a string that is not a date;
  \<^item> \<open>localeCompare\<close>: \<^verbatim>\<open>a.localeCompare(b)\<close>, the collation of the host's locale:
    negative, zero or positive;
  \<^item> \<open>engineSort\<close>: the order in which the engine's sort leaves a list of results
    when the comparator is not consistent.
\<close>

record env =
  send :: "nat \<Rightarrow> ConverseCommandInput \<Rightarrow> string + ConverseResponse"
  searchService :: "nat \<Rightarrow> MCPService \<Rightarrow> string \<Rightarrow> string + SearchResult list"
  now :: "nat \<Rightarrow> int"
  genId :: "nat \<Rightarrow> string"
  getTime :: "string \<Rightarrow> int option"
  localeCompare :: "string \<Rightarrow> string \<Rightarrow> int"
  engineSort :: "SearchResult list \<Rightarrow> SearchResult list"

text \<open>
  \<^verbatim>\<open>AgentConversation\<close> and its messages.
\<close>

record AgentMessage =
  m_role :: role
  m_content :: string
  m_timestamp :: int
  m_toolsUsed :: "string list option"

record AgentConversation =
  c_id :: string
  messages :: "AgentMessage list"
  createdAt :: int
  updatedAt :: int

text \<open>
  The state of the singletons \<^verbatim>\<open>agentService\<close> (\<open>conversations\<close>, \<open>systemPrompt\<close>)
  and \<^verbatim>\<open>bedrockClient\<close> (\<open>conversationHistory\<close>, \<open>modelId\<close>), with three ghost fields
  that record the traffic: the requests sent to the model, the backend calls made, and
  the number of clock readings taken.
\<close>

record state =
  conversations :: "string \<rightharpoonup> AgentConversation"
  systemPrompt :: string
  conversationHistory :: "ConversationMessage list"
  modelId :: string
  sent :: "ConverseCommandInput list"
  searched :: "(MCPService \<times> string) list"
  ticks :: nat

definition callSearchService ::
  "env \<Rightarrow> MCPService \<Rightarrow> string \<Rightarrow> state \<Rightarrow> (string + SearchResult list) \<times> state" where
  "callSearchService e s q st =
     (searchService e (length (searched st)) s q, st\<lparr>searched := searched st @ [(s, q)]\<rparr>)"

text \<open>
  What \<^verbatim>\<open>allResults.push(...r.value)\<close> adds for a settled promise: the value of a
  fulfilled one, nothing for a rejected one.
\<close>

fun fulfilled :: "string + SearchResult list \<Rightarrow> SearchResult list" where
  "fulfilled (Inr v) = v"
| "fulfilled (Inl _) = []"

section \<open>SearchService (search-service.ts)\<close>

text \<open>
  The comparator of \<^verbatim>\<open>sortSearchResults\<close>. When both results have a truthy
  \<open>lastModified\<close> it returns the difference of the two times, which is NaN when one of
  the strings is not a date; otherwise it compares by source, \<open>notion\<close> first, and for
  the same source by \<^verbatim>\<open>localeCompare\<close> of the titles.
\<close>

fun dateOf :: "env \<Rightarrow> string option \<Rightarrow> int option" where
  "dateOf e (Some s) = getTime e s"
| "dateOf e None = None"

definition sortCompare :: "env \<Rightarrow> SearchResult \<Rightarrow> SearchResult \<Rightarrow> int option" where
  "sortCompare e a b =
     (if truthy (lastModified a) \<and> truthy (lastModified b)
      then (case (dateOf e (lastModified b), dateOf e (lastModified a)) of
              (Some tb, Some ta) \<Rightarrow> Some (tb - ta)
            | _ \<Rightarrow> None)
      else if source a \<noteq> source b then Some (if source a = notion then - 1 else 1)
      else Some (localeCompare e (title a) (title b)))"

definition sortSearchResults :: "env \<Rightarrow> SearchResult list \<Rightarrow> SearchResult list" where
  "sortSearchResults e results = array_sort (engineSort e) (sortCompare e) results"

text \<open>
  \<^verbatim>\<open>search(query)\<close>. \<^verbatim>\<open>Promise.allSettled\<close> starts the notion call, then the asana
  call, and never rejects; nothing inside the \<^verbatim>\<open>try\<close> block throws, so its
  \<^verbatim>\<open>catch\<close> is never entered.
\<close>

definition search :: "env \<Rightarrow> string \<Rightarrow> state \<Rightarrow> (exn + SearchResult list) \<times> state" where
  "search e query st =
     (if query = [] \<or> length (trim query) = 0
      then (Inl (ApiError ''Search query cannot be empty'' None), st)
      else
        let trimmedQuery = trim query;
            (notionResults, st1) = callSearchService e notion trimmedQuery st;
            (asanaResults, st2) = callSearchService e asana trimmedQuery st1;
            allResults = fulfilled notionResults @ fulfilled asanaResults
        in (Inr (sortSearchResults e allResults), st2))"

text \<open>
  \<^verbatim>\<open>deduplicateResults\<close>: the key is the template string
  \<^verbatim>\<open>`${result.source}-${result.title}-${result.content.substring(0, 100)}`\<close>; the loop
  keeps a result when its key has not been seen.
\<close>

fun serviceName :: "MCPService \<Rightarrow> string" where
  "serviceName notion = ''notion''"
| "serviceName asana = ''asana''"

definition resultKey :: "SearchResult \<Rightarrow> string" where
  "resultKey r = serviceName (source r) @ ''-'' @ title r @ ''-'' @ take 100 (content r)"

fun dedupLoop :: "string set \<Rightarrow> SearchResult list \<Rightarrow> SearchResult list \<Rightarrow> SearchResult list" where
  "dedupLoop seen deduplicated [] = deduplicated"
| "dedupLoop seen deduplicated (r # rs) =
     (if resultKey r \<notin> seen
      then dedupLoop (insert (resultKey r) seen) (deduplicated @ [r]) rs
      else dedupLoop seen deduplicated rs)"

definition deduplicateResults :: "SearchResult list \<Rightarrow> SearchResult list" where
  "deduplicateResults results = dedupLoop {} [] results"

section \<open>BedrockClientService (bedrock-client.ts)\<close>

record ToolUse =
  tu_name :: string
  tu_input :: "string option"
  tu_toolUseId :: string

record ConverseResult =
  response :: string
  toolUses :: "ToolUse list"
  needsToolExecution :: bool

record ToolExecutionResult =
  toolUseId :: string
  result :: "SearchResult list option"
  error :: "string option"

text \<open>
  \<^verbatim>\<open>this.client.send(new ConverseCommand(input))\<close>: the oracle is asked, and the
  request is recorded.
\<close>

definition callSend :: "env \<Rightarrow> ConverseCommandInput \<Rightarrow> state \<Rightarrow> (string + ConverseResponse) \<times> state" where
  "callSend e input st = (send e (length (sent st)) input, st\<lparr>sent := sent st @ [input]\<rparr>)"

text \<open>
  The text of a reply: the non-empty text blocks, joined.
\<close>

fun hasText :: "ContentBlock \<Rightarrow> bool" where
  "hasText (TextBlock t) = (t \<noteq> [])"
| "hasText _ = False"

fun blockText :: "ContentBlock \<Rightarrow> string" where
  "blockText (TextBlock t) = t"
| "blockText _ = []"

definition textOf :: "ContentBlock list \<Rightarrow> string" where
  "textOf blocks = concat (map blockText (filter hasText blocks))"

text \<open>
  The tool uses of a reply: the tool-use blocks that have a name and a
  \<^verbatim>\<open>toolUseId\<close> (both truthy, so not empty).
\<close>

fun extractToolUses :: "ContentBlock list \<Rightarrow> ToolUse list" where
  "extractToolUses [] = []"
| "extractToolUses (ToolUseBlock (Some n) i (Some u) # blocks) =
     (if n \<noteq> [] \<and> u \<noteq> []
      then \<lparr>tu_name = n, tu_input = i, tu_toolUseId = u\<rparr> # extractToolUses blocks
      else extractToolUses blocks)"
| "extractToolUses (_ # blocks) = extractToolUses blocks"

fun messageContent :: "ContentBlock list option \<Rightarrow> ContentBlock list" where
  "messageContent (Some c) = c"
| "messageContent None = []"

text \<open>
  \<^verbatim>\<open>converse(userMessage, tools, systemPrompt)\<close>. The messages sent are the client's
  own history followed by the user message. The history grows only when the request
  succeeds.
\<close>

definition converse ::
  "env \<Rightarrow> string \<Rightarrow> string list \<Rightarrow> string option \<Rightarrow> state \<Rightarrow> (exn + ConverseResult) \<times> state" where
  "converse e userMessage tools prompt st =
     (let msgs = conversationHistory st @ [(user, [TextBlock userMessage])];
          input = \<lparr>in_modelId = modelId st, in_messages = msgs,
                   in_system = (case prompt of Some p \<Rightarrow> if p \<noteq> [] then Some p else None
                                | None \<Rightarrow> None),
                   in_toolConfig = (if tools \<noteq> [] then Some tools else None)\<rparr>;
          (r, st1) = callSend e input st
      in case r of
           Inl m \<Rightarrow> (Inl (Error (''LLM conversation failed: '' @ m)), st1)
         | Inr reply \<Rightarrow>
             let blocks = messageContent (out_message reply);
                 uses = extractToolUses blocks;
                 h1 = conversationHistory st1 @ [(user, [TextBlock userMessage])];
                 h2 = (case out_message reply of Some c \<Rightarrow> h1 @ [(assistant, c)] | None \<Rightarrow> h1)
             in (Inr \<lparr>response = textOf blocks, toolUses = uses,
                       needsToolExecution = (stopReason reply = ''tool_use'' \<and> uses \<noteq> [])\<rparr>,
                 st1\<lparr>conversationHistory := h2\<rparr>))"

text \<open>
  \<^verbatim>\<open>continueWithToolResults(toolResults)\<close>. A result with a truthy \<^verbatim>\<open>error\<close> is
  sent as the text \<^verbatim>\<open>Error: ...\<close>, any other as its JSON payload. The tool results
  are pushed on the history before the request is sent.
\<close>

definition toolResultBlock :: "ToolExecutionResult \<Rightarrow> ContentBlock" where
  "toolResultBlock r =
     ToolResultBlock (toolUseId r)
       (case error r of
          Some m \<Rightarrow> if m \<noteq> [] then text_content (''Error: '' @ m) else json_content (result r)
        | None \<Rightarrow> json_content (result r))"

definition continueWithToolResults ::
  "env \<Rightarrow> ToolExecutionResult list \<Rightarrow> state \<Rightarrow> (exn + string) \<times> state" where
  "continueWithToolResults e toolResults st =
     (let toolResultContent = map toolResultBlock toolResults;
          st1 = st\<lparr>conversationHistory := conversationHistory st @ [(user, toolResultContent)]\<rparr>;
          input = \<lparr>in_modelId = modelId st1, in_messages = conversationHistory st1,
                   in_system = None, in_toolConfig = None\<rparr>;
          (r, st2) = callSend e input st1
      in case r of
           Inl m \<Rightarrow> (Inl (Error (''Tool result processing failed: '' @ m)), st2)
         | Inr reply \<Rightarrow>
             (Inr (textOf (messageContent (out_message reply))),
              (case out_message reply of
                 Some c \<Rightarrow> st2\<lparr>conversationHistory := conversationHistory st2 @ [(assistant, c)]\<rparr>
               | None \<Rightarrow> st2)))"


section \<open>AgentService (agent-service.ts)\<close>

record AgentResponse =
  a_response :: string
  a_toolsUsed :: "string list"
  a_searchResults :: "SearchResult list option"
  a_conversationId :: string

text \<open>
  \<^verbatim>\<open>createConversation()\<close>: the identifier and the two dates come from the
  environment.
\<close>

definition createConversation :: "env \<Rightarrow> state \<Rightarrow> string \<times> state" where
  "createConversation e st =
     (let conversationId = genId e (ticks st);
          conversation = \<lparr>c_id = conversationId, messages = [],
                          createdAt = now e (ticks st), updatedAt = now e (Suc (ticks st))\<rparr>
      in (conversationId,
          st\<lparr>conversations := (conversations st)(conversationId \<mapsto> conversation),
             ticks := ticks st + 2\<rparr>))"

text \<open>
  \<^verbatim>\<open>getMCPToolSpecs()\<close>, by tool name.
\<close>

definition getMCPToolSpecs :: "string list" where
  "getMCPToolSpecs = [''searchNotion'', ''searchAsana'', ''searchAll'']"

text \<open>
  \<^verbatim>\<open>executeMCPTool(toolName, input)\<close>; \<open>Inl m\<close> is a thrown Error with message \<open>m\<close>.
\<close>

definition executeMCPTool ::
  "env \<Rightarrow> string \<Rightarrow> string option \<Rightarrow> state \<Rightarrow> (string + SearchResult list) \<times> state" where
  "executeMCPTool e toolName input st =
     (case input of
        None \<Rightarrow> (Inl ''Query parameter is required and must be a string'', st)
      | Some query \<Rightarrow>
          if query = [] then (Inl ''Query parameter is required and must be a string'', st)
          else if toolName = ''searchNotion'' then callSearchService e notion query st
          else if toolName = ''searchAsana'' then callSearchService e asana query st
          else if toolName = ''searchAll'' then
            (let (notionResults, st1) = callSearchService e notion query st;
                 (asanaResults, st2) = callSearchService e asana query st1
             in (Inr (fulfilled notionResults @ fulfilled asanaResults), st2))
          else (Inl (''Unknown tool: '' @ toolName), st))"

text \<open>
  The loop \<^verbatim>\<open>for (const toolUse of llmResponse.toolUses)\<close> with its
  \<^verbatim>\<open>try\<close>/\<^verbatim>\<open>catch\<close>, over the three arrays it fills: \<^verbatim>\<open>toolResults\<close>,
  \<^verbatim>\<open>toolsUsed\<close> and \<^verbatim>\<open>searchResults\<close>.
\<close>

fun executeTools ::
  "env \<Rightarrow> ToolUse list \<Rightarrow> ToolExecutionResult list \<times> string list \<times> SearchResult list \<Rightarrow> state
   \<Rightarrow> (ToolExecutionResult list \<times> string list \<times> SearchResult list) \<times> state" where
  "executeTools e [] acc st = (acc, st)"
| "executeTools e (toolUse # rest) (toolResults, toolsUsed, searchResults) st =
     (case executeMCPTool e (tu_name toolUse) (tu_input toolUse) st of
        (Inr res, st1) \<Rightarrow>
          executeTools e rest
            (toolResults @ [\<lparr>toolUseId = tu_toolUseId toolUse, result = Some res, error = None\<rparr>],
             toolsUsed @ [tu_name toolUse],
             searchResults @ (if res \<noteq> [] then res else []))
            st1
      | (Inl m, st1) \<Rightarrow>
          executeTools e rest
            (toolResults @ [\<lparr>toolUseId = tu_toolUseId toolUse, result = None, error = Some m\<rparr>],
             toolsUsed, searchResults)
            st1)"

text \<open>
  The body of the \<^verbatim>\<open>try\<close> block of \<^verbatim>\<open>chat\<close> up to the final response: the first
  request, and when tools are needed the tool loop and the continuation. It returns the
  final response with \<^verbatim>\<open>toolsUsed\<close> and \<^verbatim>\<open>searchResults\<close>.
\<close>

definition runTurn ::
  "env \<Rightarrow> string \<Rightarrow> state \<Rightarrow> (exn + string \<times> string list \<times> SearchResult list) \<times> state" where
  "runTurn e userMessage st =
     (case converse e userMessage getMCPToolSpecs (Some (systemPrompt st)) st of
        (Inl err, st1) \<Rightarrow> (Inl err, st1)
      | (Inr llmResponse, st1) \<Rightarrow>
          if needsToolExecution llmResponse \<and> length (toolUses llmResponse) > 0
          then
            (case executeTools e (toolUses llmResponse) ([], [], []) st1 of
               ((toolResults, toolsUsed, searchResults), st2) \<Rightarrow>
                 (case continueWithToolResults e toolResults st2 of
                    (Inl err, st3) \<Rightarrow> (Inl err, st3)
                  | (Inr finalResponse, st3) \<Rightarrow>
                      (Inr (finalResponse, toolsUsed, searchResults), st3)))
          else (Inr (response llmResponse, [], []), st1))"

text \<open>
  The end of \<^verbatim>\<open>chat\<close>: the two \<^verbatim>\<open>conversation.messages.push\<close> and the new
  \<^verbatim>\<open>updatedAt\<close>, on the conversation object that was resolved.
\<close>

definition appendTurn ::
  "env \<Rightarrow> string \<Rightarrow> AgentConversation \<Rightarrow> string \<Rightarrow> string \<Rightarrow> string list \<Rightarrow> state \<Rightarrow> state" where
  "appendTurn e conversationId conversation userMessage finalResponse toolsUsed st =
     (let userEntry = \<lparr>m_role = user, m_content = userMessage, m_timestamp = now e (ticks st),
                        m_toolsUsed = None\<rparr>;
          assistantEntry = \<lparr>m_role = assistant, m_content = finalResponse,
                             m_timestamp = now e (ticks st + 1),
                             m_toolsUsed = (if length toolsUsed > 0 then Some toolsUsed else None)\<rparr>;
          conversation' = conversation\<lparr>messages := messages conversation @ [userEntry, assistantEntry],
                                       updatedAt := now e (ticks st + 2)\<rparr>
      in st\<lparr>conversations := (conversations st)(conversationId \<mapsto> conversation'),
            ticks := ticks st + 3\<rparr>)"

text \<open>
  \<^verbatim>\<open>chat(message, conversationId?)\<close>. An absent or empty \<^verbatim>\<open>conversationId\<close> creates
  a conversation (\<open>resolveConversation\<close>). Whatever the \<^verbatim>\<open>try\<close> block throws is
  rethrown as an ApiError.
\<close>

definition resolveConversation :: "env \<Rightarrow> string option \<Rightarrow> state \<Rightarrow> string \<times> state" where
  "resolveConversation e conversationId st =
     (case conversationId of
        None \<Rightarrow> createConversation e st
      | Some c \<Rightarrow> if c = [] then createConversation e st else (c, st))"

definition chat :: "env \<Rightarrow> string \<Rightarrow> string option \<Rightarrow> state \<Rightarrow> (exn + AgentResponse) \<times> state" where
  "chat e userMessage conversationId st =
     (if userMessage = [] \<or> length (trim userMessage) = 0
      then (Inl (ApiError ''Message cannot be empty'' None), st)
      else
        let (cid, st0) = resolveConversation e conversationId st
        in case conversations st0 cid of
             None \<Rightarrow> (Inl (ApiError ''Conversation not found'' None), st0)
           | Some conversation \<Rightarrow>
               (case runTurn e userMessage st0 of
                  (Inl err, st1) \<Rightarrow>
                    (Inl (ApiError (''Agent conversation failed: '' @ errorMessage err) None), st1)
                | (Inr (finalResponse, toolsUsed, searchResults), st1) \<Rightarrow>
                    (Inr \<lparr>a_response = finalResponse, a_toolsUsed = toolsUsed,
                          a_searchResults = (if length searchResults > 0 then Some searchResults
                                             else None),
                          a_conversationId = cid\<rparr>,
                     appendTurn e cid conversation userMessage finalResponse toolsUsed st1)))"







text \<open>
  The state when the module is loaded. The default system prompt plays no part in what
  follows and is kept as a parameter.
\<close>

definition initial :: "string \<Rightarrow> state" where
  "initial prompt =
     \<lparr>conversations = Map.empty, systemPrompt = prompt, conversationHistory = [],
      modelId = ''anthropic.claude-3-5-sonnet-20240620-v1:0'',
      sent = [], searched = [], ticks = 0\<rparr>"

section \<open>MCPClientManager (mcp-client.ts)\<close>

text \<open>
  The manager runs on one thread: between two \<^verbatim>\<open>await\<close> points a piece of code runs
  alone, and at an \<^verbatim>\<open>await\<close> any other piece may run. The model has one event for
  each such piece that reads or writes the manager's maps.

  Every call of \<^verbatim>\<open>createClient\<close> is an attempt; the attempts are kept in a list, and
  the position of an attempt stands for the promise \<^verbatim>\<open>createClient\<close> returned and
  for the \<^verbatim>\<open>Client\<close> object it creates. An attempt waits for the token, then for
  \<^verbatim>\<open>client.connect\<close>, and is then resolved or rejected; \<open>a_resumed\<close> says that the
  \<^verbatim>\<open>getClient\<close> call which started it has run on after its
  \<^verbatim>\<open>await connectionPromise\<close>. The list \<open>connects\<close> records the calls of
  \<^verbatim>\<open>client.connect\<close>, by attempt.
\<close>

datatype stage = AwaitingToken | Connecting | Resolved | Rejected

record attempt =
  a_service :: MCPService
  a_stage :: stage
  a_resumed :: bool

record manager =
  clients :: "MCPService \<rightharpoonup> nat"
  connectionPromises :: "MCPService \<rightharpoonup> nat"
  attempts :: "attempt list"
  connects :: "nat list"

definition newManager :: manager where
  "newManager = \<lparr>clients = Map.empty, connectionPromises = Map.empty, attempts = [], connects = []\<rparr>"

text \<open>
  \<^verbatim>\<open>getClient(service)\<close> up to its first \<^verbatim>\<open>await\<close>: the stored client is returned;
  or else the promise of the connection in progress; or else \<^verbatim>\<open>createClient\<close> is
  called, which runs up to its \<^verbatim>\<open>await oauthService.getToken\<close>, and its promise is
  stored.
\<close>

datatype acquired = Existing nat | Shared nat | Started nat

definition getClient :: "MCPService \<Rightarrow> manager \<Rightarrow> acquired \<times> manager" where
  "getClient service m =
     (case clients m service of
        Some existingClient \<Rightarrow> (Existing existingClient, m)
      | None \<Rightarrow>
          (case connectionPromises m service of
             Some existingPromise \<Rightarrow> (Shared existingPromise, m)
           | None \<Rightarrow>
               (let connectionPromise = length (attempts m)
                in (Started connectionPromise,
                    m\<lparr>attempts := attempts m @
                         [\<lparr>a_service = service, a_stage = AwaitingToken, a_resumed = False\<rparr>],
                      connectionPromises := (connectionPromises m)(service \<mapsto> connectionPromise)\<rparr>))))"

definition setStage :: "nat \<Rightarrow> stage \<Rightarrow> manager \<Rightarrow> manager" where
  "setStage p s m = m\<lparr>attempts := (attempts m)[p := (attempts m ! p)\<lparr>a_stage := s\<rparr>]\<rparr>"

text \<open>
  \<^verbatim>\<open>createClient\<close> after \<^verbatim>\<open>getToken\<close> has settled: without a token it throws, and
  its promise is rejected; with one it builds the transport and the client and calls
  \<^verbatim>\<open>client.connect\<close>.
\<close>

definition tokenArrives :: "nat \<Rightarrow> bool \<Rightarrow> manager \<Rightarrow> manager" where
  "tokenArrives p token m =
     (if p < length (attempts m) \<and> a_stage (attempts m ! p) = AwaitingToken
      then (if token then (setStage p Connecting m)\<lparr>connects := connects m @ [p]\<rparr>
            else setStage p Rejected m)
      else m)"

text \<open>
  \<^verbatim>\<open>createClient\<close> after \<^verbatim>\<open>client.connect\<close> has settled: it returns the client, or
  rethrows.
\<close>

definition connectSettles :: "nat \<Rightarrow> bool \<Rightarrow> manager \<Rightarrow> manager" where
  "connectSettles p ok m =
     (if p < length (attempts m) \<and> a_stage (attempts m ! p) = Connecting
      then setStage p (if ok then Resolved else Rejected) m
      else m)"

text \<open>
  \<^verbatim>\<open>getClient\<close> after \<^verbatim>\<open>await connectionPromise\<close>, in the call that created the
  promise: on success \<^verbatim>\<open>clients.set\<close> and \<^verbatim>\<open>connectionPromises.delete\<close>, in the
  \<^verbatim>\<open>catch\<close> only \<^verbatim>\<open>connectionPromises.delete\<close>.
\<close>

definition resume :: "nat \<Rightarrow> manager \<Rightarrow> manager" where
  "resume p m =
     (if p < length (attempts m) \<and> \<not> a_resumed (attempts m ! p)
      then
        (let service = a_service (attempts m ! p);
             m' = m\<lparr>attempts := (attempts m)[p := (attempts m ! p)\<lparr>a_resumed := True\<rparr>]\<rparr>
         in case a_stage (attempts m ! p) of
              Resolved \<Rightarrow> m'\<lparr>clients := (clients m)(service \<mapsto> p),
                              connectionPromises := (connectionPromises m)(service := None)\<rparr>
            | Rejected \<Rightarrow> m'\<lparr>connectionPromises := (connectionPromises m)(service := None)\<rparr>
            | _ \<Rightarrow> m)
      else m)"

text \<open>
  \<^verbatim>\<open>this.clients.delete(service)\<close>, as \<^verbatim>\<open>disconnect\<close> does after
  \<^verbatim>\<open>await client.close()\<close> and \<^verbatim>\<open>getConnectionStatus\<close> does when its probe fails.
\<close>

definition evict :: "MCPService \<Rightarrow> manager \<Rightarrow> manager" where
  "evict service m = m\<lparr>clients := (clients m)(service := None)\<rparr>"

text \<open>
  \<^verbatim>\<open>getConnectionStatus(service)\<close>, given what \<^verbatim>\<open>oauthService.isAuthenticated\<close>
  answers (\<open>None\<close> when it throws) and whether \<^verbatim>\<open>client.listTools()\<close> succeeds.
\<close>

record status =
  connected :: bool
  needsAuth :: bool

definition getConnectionStatus ::
  "MCPService \<Rightarrow> bool option \<Rightarrow> bool \<Rightarrow> manager \<Rightarrow> status \<times> manager" where
  "getConnectionStatus service isAuthenticated alive m =
     (case isAuthenticated of
        None \<Rightarrow> (\<lparr>connected = False, needsAuth = True\<rparr>, m)
      | Some False \<Rightarrow> (\<lparr>connected = False, needsAuth = True\<rparr>, m)
      | Some True \<Rightarrow>
          (case clients m service of
             Some client \<Rightarrow>
               if alive then (\<lparr>connected = True, needsAuth = False\<rparr>, m)
               else (\<lparr>connected = False, needsAuth = False\<rparr>, evict service m)
           | None \<Rightarrow> (\<lparr>connected = False, needsAuth = False\<rparr>, m)))"

text \<open>
  The events, and the states the manager reaches: any sequence of events from the new
  manager. An event that cannot happen in a state leaves it as it is. \<open>Evicted\<close> is
  the deletion by a \<^verbatim>\<open>disconnect\<close> or by a probe that was suspended while other
  events ran. Events may follow each other in any order, which allows every schedule
  of the event loop, and more.
\<close>

datatype event =
    GetClient MCPService
  | TokenArrives nat bool
  | ConnectSettles nat bool
  | Resume nat
  | Probe MCPService "bool option" bool
  | Evicted MCPService

fun step :: "manager \<Rightarrow> event \<Rightarrow> manager" where
  "step m (GetClient service) = snd (getClient service m)"
| "step m (TokenArrives p token) = tokenArrives p token m"
| "step m (ConnectSettles p ok) = connectSettles p ok m"
| "step m (Resume p) = resume p m"
| "step m (Probe service isAuthenticated alive) =
     snd (getConnectionStatus service isAuthenticated alive m)"
| "step m (Evicted service) = evict service m"

text \<open>
  A pending attempt of a service: one whose \<^verbatim>\<open>getClient\<close> call has not yet run on.
  And the invariant of the reachable states: the stored promises are exactly the pending
  attempts, a service with a client has no stored promise, and no attempt has called
  \<^verbatim>\<open>client.connect\<close> twice.
\<close>

definition pendingAttempt :: "manager \<Rightarrow> MCPService \<Rightarrow> nat \<Rightarrow> bool" where
  "pendingAttempt m service p \<longleftrightarrow>
     p < length (attempts m) \<and> a_service (attempts m ! p) = service \<and> \<not> a_resumed (attempts m ! p)"

definition coordinated :: "manager \<Rightarrow> bool" where
  "coordinated m \<longleftrightarrow>
     (\<forall>s p. connectionPromises m s = Some p \<longrightarrow> pendingAttempt m s p)
   \<and> (\<forall>s p. pendingAttempt m s p \<longrightarrow> connectionPromises m s = Some p)
   \<and> (\<forall>s c. clients m s = Some c \<longrightarrow> connectionPromises m s = None \<and> c < length (attempts m))
   \<and> distinct (connects m)
   \<and> (\<forall>p\<in>set (connects m). p < length (attempts m) \<and> a_stage (attempts m ! p) \<noteq> AwaitingToken)"

section \<open>Auxiliary definitions for the statements\<close>

text \<open>
  The position of a service in the configuration (\<^verbatim>\<open>SERVICE_CONFIGS\<close> lists notion,
  then asana); the time of a result, when it has a truthy \<open>lastModified\<close> that is a
  date; and a shorthand for writing a result down.
\<close>

definition timeOf :: "env \<Rightarrow> SearchResult \<Rightarrow> int option" where
  "timeOf e r = (if truthy (lastModified r) then dateOf e (lastModified r) else None)"

fun precedence :: "MCPService \<Rightarrow> nat" where
  "precedence notion = 0"
| "precedence asana = 1"

definition mkResult :: "string \<Rightarrow> MCPService \<Rightarrow> string \<Rightarrow> string \<Rightarrow> string option \<Rightarrow> SearchResult" where
  "mkResult i s t c lm = \<lparr>rid = i, title = t, content = c, source = s, url = None, lastModified = lm\<rparr>"

text \<open>
  For the statements about the tool loop: the outcome of each dispatch of a list of tool
  uses, in order, each started in the state the previous one left; and the entry of
  \<^verbatim>\<open>toolResults\<close> that belongs to a tool use with a given outcome.
\<close>

fun dispatchAll :: "env \<Rightarrow> ToolUse list \<Rightarrow> state \<Rightarrow> (string + SearchResult list) list" where
  "dispatchAll e [] st = []"
| "dispatchAll e (u # us) st =
     (case executeMCPTool e (tu_name u) (tu_input u) st of
        (out, st1) \<Rightarrow> out # dispatchAll e us st1)"

fun toolResultOf :: "ToolUse \<Rightarrow> string + SearchResult list \<Rightarrow> ToolExecutionResult" where
  "toolResultOf u (Inr res) = \<lparr>toolUseId = tu_toolUseId u, result = Some res, error = None\<rparr>"
| "toolResultOf u (Inl m) = \<lparr>toolUseId = tu_toolUseId u, result = None, error = Some m\<rparr>"

text \<open>
  Environments and replies used as examples. In them the clock counts up, the
  identifiers are all different, three date strings are known, titles are collated by
  character code, and the engine reverses a list it cannot order.
\<close>

definition codeOrder :: "string \<Rightarrow> string \<Rightarrow> int" where
  "codeOrder a b = (if a < b then - 1 else if a = b then 0 else 1)"

definition exampleTime :: "string \<Rightarrow> int option" where
  "exampleTime = map_of [(''2024-01-05'', 1704412800000), (''2024-01-07'', 1704585600000),
                         (''2024-01-09'', 1704758400000)]"

definition textReply :: "string \<Rightarrow> ConverseResponse" where
  "textReply t = \<lparr>out_message = Some [TextBlock t], stopReason = ''end_turn''\<rparr>"

definition toolReply :: "(string \<times> string \<times> string) list \<Rightarrow> ConverseResponse" where
  "toolReply calls =
     \<lparr>out_message = Some (map (\<lambda>(n, q, u). ToolUseBlock (Some n) (Some q) (Some u)) calls),
      stopReason = ''tool_use''\<rparr>"

definition exampleEnv ::
  "(nat \<Rightarrow> string + ConverseResponse) \<Rightarrow> (MCPService \<Rightarrow> string \<Rightarrow> string + SearchResult list) \<Rightarrow> env" where
  "exampleEnv replies backend =
     \<lparr>send = (\<lambda>k input. replies k), searchService = (\<lambda>k. backend),
      now = (\<lambda>k. int k), genId = (\<lambda>k. ''conv_'' @ replicate k (CHR ''x'')),
      getTime = exampleTime, localeCompare = codeOrder, engineSort = rev\<rparr>"

definition helloEnv :: env where
  "helloEnv = exampleEnv (\<lambda>k. Inr (textReply ''hello'')) (\<lambda>s q. Inr [])"

definition secondConversation :: state where
  "secondConversation =
     snd (createConversation helloEnv (snd (chat helloEnv ''hi'' None (initial ''p''))))"

definition toolsEnv :: env where
  "toolsEnv = exampleEnv
     (\<lambda>k. if k = 0
          then Inr (toolReply [(''searchNotion'', ''q'', ''t1''), (''bogus'', ''q'', ''t2''),
                               (''searchAsana'', ''q'', ''t3'')])
          else Inr (textReply ''done''))
     (\<lambda>s q. if s = notion then Inl ''Search failed for notion: down''
            else Inr [mkResult ''asana-resource-0'' asana ''doc1'' q (Some ''2024-01-07'')])"

definition failingEnv :: env where
  "failingEnv = exampleEnv
     (\<lambda>k. if k = 0 then Inr (toolReply [(''searchAll'', ''q'', ''t1'')]) else Inl ''throttled'')
     (\<lambda>s q. if s = notion \<or> q = ''x'' then Inl ''Search failed: down''
            else Inr [mkResult ''asana-resource-0'' asana ''doc1'' q (Some ''2024-01-07'')])"

definition sameDayEnv :: env where
  "sameDayEnv = exampleEnv (\<lambda>k. Inr (textReply ''hello''))
     (\<lambda>s q. if s = notion
            then Inr [mkResult ''notion-resource-0'' notion ''b'' ''d'' (Some ''2024-01-05''),
                      mkResult ''notion-resource-1'' notion ''a'' ''d'' (Some ''2024-01-05'')]
            else Inr [])"



section \<open>Sorting\<close>

lemma mkResult_sel [simp]:
  "rid (mkResult i s t c lm) = i" "title (mkResult i s t c lm) = t"
  "content (mkResult i s t c lm) = c" "source (mkResult i s t c lm) = s"
  "url (mkResult i s t c lm) = None" "lastModified (mkResult i s t c lm) = lm"
  by (simp_all add: mkResult_def)

lemma mkResult_eq [simp]:
  "mkResult i s t c lm = mkResult i' s' t' c' lm'
     \<longleftrightarrow> i = i' \<and> s = s' \<and> t = t' \<and> c = c' \<and> lm = lm'"
  by (auto simp: mkResult_def)

lemma mset_insert_by: "mset (insert_by cmp x ys) = add_mset x (mset ys)"
  by (induction ys) auto

lemma set_insert_by: "set (insert_by cmp x ys) = insert x (set ys)"
  by (induction ys) auto

lemma mset_insertion: "mset (foldr (insert_by cmp) xs []) = mset xs"
  by (induction xs) (auto simp: mset_insert_by)

lemma set_insertion: "set (foldr (insert_by cmp) xs []) = set xs"
  by (induction xs) (auto simp: set_insert_by)

lemma mset_array_sort: "mset (array_sort engine cmp xs) = mset xs"
  by (simp add: array_sort_def mset_insertion)

lemma array_sort_consistent:
  "consistent cmp xs \<Longrightarrow> array_sort engine cmp xs = foldr (insert_by cmp) xs []"
  by (simp add: array_sort_def)

text \<open>
  What consistency gives on the elements of the list: the results are numbers, two
  elements are always comparable, and "does not have to follow" is transitive.
\<close>

lemma consistent_num:
  assumes "consistent cmp xs"
  shows "\<forall>a\<in>set xs. \<forall>b\<in>set xs. cmp a b \<noteq> None"
  using assms unfolding consistent_def by (elim conjE)

lemma consistent_refl:
  assumes "consistent cmp xs"
  shows "\<forall>a\<in>set xs. cmp a a = Some 0"
  using assms unfolding consistent_def by (elim conjE)

lemma consistent_sym:
  assumes "consistent cmp xs"
  shows "\<forall>a\<in>set xs. \<forall>b\<in>set xs. cmp a b = Some 0 \<longrightarrow> cmp b a = Some 0"
  using assms unfolding consistent_def by (elim conjE)

lemma consistent_eq:
  assumes "consistent cmp xs"
  shows "\<forall>a\<in>set xs. \<forall>b\<in>set xs. \<forall>c\<in>set xs.
         cmp a b = Some 0 \<and> cmp b c = Some 0 \<longrightarrow> cmp a c = Some 0"
  using assms unfolding consistent_def by (elim conjE)

lemma consistent_neg:
  assumes "consistent cmp xs"
  shows "\<forall>a\<in>set xs. \<forall>b\<in>set xs. \<forall>c\<in>set xs.
         negative (cmp a b) \<and> negative (cmp b c) \<longrightarrow> negative (cmp a c)"
  using assms unfolding consistent_def by (elim conjE)

lemma consistent_pos:
  assumes "consistent cmp xs"
  shows "\<forall>a\<in>set xs. \<forall>b\<in>set xs. \<forall>c\<in>set xs.
         positive (cmp a b) \<and> positive (cmp b c) \<longrightarrow> positive (cmp a c)"
  using assms unfolding consistent_def by (elim conjE)

lemma consistent_number:
  assumes "consistent cmp xs" and "a \<in> set xs" and "b \<in> set xs"
  shows "\<exists>v. cmp a b = Some v"
proof -
  from consistent_num[OF assms(1)] assms(2,3) have "cmp a b \<noteq> None" by blast
  then show ?thesis by (cases "cmp a b") simp_all
qed

lemma consistent_flip:
  assumes c: "consistent cmp xs" and a: "a \<in> set xs" and b: "b \<in> set xs"
      and pos: "positive (cmp a b)"
  shows "negative (cmp b a)"
proof -
  obtain v where v: "cmp b a = Some v" using consistent_number[OF c b a] by blast
  have refl: "cmp a a = Some 0" using consistent_refl[OF c] a by blast
  show ?thesis
  proof (cases "v < 0")
    case True
    with v show ?thesis by simp
  next
    case False
    show ?thesis
    proof (cases "v = 0")
      case True
      with v have "cmp b a = Some 0" by simp
      with consistent_sym[OF c] a b have "cmp a b = Some 0" by blast
      with pos show ?thesis by simp
    next
      case nz: False
      with False v have "positive (cmp b a)" by simp
      with pos consistent_pos[OF c] a b have "positive (cmp a a)" by blast
      with refl show ?thesis by simp
    qed
  qed
qed

lemma number_le_cases:
  "cmp a b = Some v \<Longrightarrow> number (cmp a b) \<le> 0 \<Longrightarrow> negative (cmp a b) \<or> cmp a b = Some 0"
  by auto

lemma consistent_total:
  assumes c: "consistent cmp xs" and a: "a \<in> set xs" and b: "b \<in> set xs"
  shows "number (cmp a b) \<le> 0 \<or> number (cmp b a) \<le> 0"
proof (cases "number (cmp a b) \<le> 0")
  case True
  then show ?thesis by simp
next
  case False
  obtain v where v: "cmp a b = Some v" using consistent_number[OF c a b] by blast
  with False have "positive (cmp a b)" by simp
  from consistent_flip[OF c a b this] have "negative (cmp b a)" .
  then have "number (cmp b a) \<le> 0" by (cases "cmp b a") simp_all
  then show ?thesis by simp
qed

lemma consistent_trans:
  assumes c: "consistent cmp xs" and a: "a \<in> set xs" and b: "b \<in> set xs" and d: "d \<in> set xs"
      and ab: "number (cmp a b) \<le> 0" and bd: "number (cmp b d) \<le> 0"
  shows "number (cmp a d) \<le> 0"
proof (rule ccontr)
  assume n: "\<not> number (cmp a d) \<le> 0"
  obtain w where w: "cmp a d = Some w" using consistent_number[OF c a d] by blast
  with n have pos: "positive (cmp a d)" by simp
  have da: "negative (cmp d a)" using consistent_flip[OF c a d pos] .
  obtain u where u: "cmp a b = Some u" using consistent_number[OF c a b] by blast
  obtain v where v: "cmp b d = Some v" using consistent_number[OF c b d] by blast
  have eqs: "cmp y x = Some 0" if "x \<in> set xs" "y \<in> set xs" "cmp x y = Some 0" for x y
    using consistent_sym[OF c] that by blast
  have eqt: "cmp x z = Some 0"
    if "x \<in> set xs" "y \<in> set xs" "z \<in> set xs" "cmp x y = Some 0" "cmp y z = Some 0" for x y z
    using consistent_eq[OF c] that by blast
  have negt: "negative (cmp x z)"
    if "x \<in> set xs" "y \<in> set xs" "z \<in> set xs" "negative (cmp x y)" "negative (cmp y z)" for x y z
    using consistent_neg[OF c] that by blast
  show False
  proof (cases "u < 0")
    case ul: True
    then have nab: "negative (cmp a b)" using u by simp
    show False
    proof (cases "v < 0")
      case True
      then have "negative (cmp b d)" using v by simp
      from negt[OF a b d nab this] pos w show False by simp
    next
      case False
      with bd v have "cmp b d = Some 0" by simp
      from eqs[OF b d this] have db: "cmp d b = Some 0" .
      from negt[OF d a b da nab] db show False by simp
    qed
  next
    case False
    with ab u have ab0: "cmp a b = Some 0" by simp
    from eqs[OF a b ab0] have ba0: "cmp b a = Some 0" .
    show False
    proof (cases "v < 0")
      case True
      then have "negative (cmp b d)" using v by simp
      from negt[OF b d a this da] ba0 show False by simp
    next
      case False
      with bd v have "cmp b d = Some 0" by simp
      from eqt[OF a b d ab0 this] pos show False by simp
    qed
  qed
qed

lemma sorted_insert_by:
  assumes c: "consistent cmp zs" and x: "x \<in> set zs" and ys: "set ys \<subseteq> set zs"
      and srt: "sorted_wrt (\<lambda>a b. number (cmp a b) \<le> 0) ys"
  shows "sorted_wrt (\<lambda>a b. number (cmp a b) \<le> 0) (insert_by cmp x ys)"
  using ys srt
proof (induction ys)
  case Nil
  then show ?case by simp
next
  case (Cons y ys)
  then have y: "y \<in> set zs" and sub: "set ys \<subseteq> set zs" by auto
  show ?case
  proof (cases "number (cmp x y) \<le> 0")
    case True
    have "number (cmp x z) \<le> 0" if "z \<in> set ys" for z
    proof -
      from Cons.prems(2) that have "number (cmp y z) \<le> 0" by simp
      moreover from that sub have "z \<in> set zs" by auto
      ultimately show ?thesis using consistent_trans[OF c x y _ True] by blast
    qed
    with True Cons.prems(2) show ?thesis by simp
  next
    case False
    with consistent_total[OF c x y] have yx: "number (cmp y x) \<le> 0" by simp
    have "sorted_wrt (\<lambda>a b. number (cmp a b) \<le> 0) (insert_by cmp x ys)"
      using Cons.IH[OF sub] Cons.prems(2) by simp
    moreover have "number (cmp y z) \<le> 0" if "z \<in> set (insert_by cmp x ys)" for z
      using that yx Cons.prems(2) by (auto simp: set_insert_by)
    ultimately show ?thesis using False by simp
  qed
qed

lemma sorted_insertion:
  assumes c: "consistent cmp zs" and xs: "set xs \<subseteq> set zs"
  shows "sorted_wrt (\<lambda>a b. number (cmp a b) \<le> 0) (foldr (insert_by cmp) xs [])"
  using xs
proof (induction xs)
  case Nil
  then show ?case by simp
next
  case (Cons x xs)
  then have x: "x \<in> set zs" and sub: "set xs \<subseteq> set zs" by auto
  have "set (foldr (insert_by cmp) xs []) \<subseteq> set zs" using sub by (simp add: set_insertion)
  from sorted_insert_by[OF c x this Cons.IH[OF sub]] show ?case by simp
qed

lemma filter_insert_by:
  assumes "P x \<Longrightarrow> \<forall>y\<in>set ys. P y \<longrightarrow> number (cmp x y) \<le> 0"
  shows "filter P (insert_by cmp x ys) = (if P x then x # filter P ys else filter P ys)"
  using assms
proof (induction ys)
  case Nil
  then show ?case by simp
next
  case (Cons y ys)
  show ?case
  proof (cases "number (cmp x y) \<le> 0")
    case True
    then show ?thesis by simp
  next
    case False
    have IH: "filter P (insert_by cmp x ys) = (if P x then x # filter P ys else filter P ys)"
      using Cons.prems by (intro Cons.IH) simp
    show ?thesis
    proof (cases "P x")
      case True
      with Cons.prems False have "\<not> P y" by auto
      with False IH True show ?thesis by simp
    next
      case Px: False
      with False IH show ?thesis by simp
    qed
  qed
qed

lemma stable_insertion:
  assumes c: "consistent cmp zs" and xs: "set xs \<subseteq> set zs" and k: "k \<in> set zs"
  shows "filter (\<lambda>y. cmp k y = Some 0) (foldr (insert_by cmp) xs [])
       = filter (\<lambda>y. cmp k y = Some 0) xs"
  using xs
proof (induction xs)
  case Nil
  then show ?case by simp
next
  case (Cons x xs)
  then have x: "x \<in> set zs" and sub: "set xs \<subseteq> set zs" by auto
  let ?P = "\<lambda>y. cmp k y = Some 0"
  have "\<forall>y\<in>set (foldr (insert_by cmp) xs []). ?P y \<longrightarrow> number (cmp x y) \<le> 0" if px: "?P x"
  proof (intro ballI impI)
    fix y assume y: "y \<in> set (foldr (insert_by cmp) xs [])" and py: "?P y"
    then have yz: "y \<in> set zs" using sub by (auto simp: set_insertion)
    from consistent_sym[OF c] k x px have "cmp x k = Some 0" by blast
    with consistent_eq[OF c] x k yz py have "cmp x y = Some 0" by blast
    then show "number (cmp x y) \<le> 0" by simp
  qed
  from filter_insert_by[of ?P x "foldr (insert_by cmp) xs []" cmp, OF this] Cons.IH[OF sub]
  show ?case by simp
qed

text \<open>
  Where the comparator agrees with a linear order on keys, and the list is already in
  the order of a second key, the insertion sort is the library's stable sort by the pair
  of keys.
\<close>

lemma insert_by_insort_key:
  fixes k :: "'a \<Rightarrow> 'k::linorder"
  assumes "\<forall>y\<in>set ys. number (cmp x y) \<le> 0 \<longleftrightarrow> k x \<le> k y"
  shows "insert_by cmp x ys = insort_key k x ys"
  using assms by (induction ys) auto

lemma insertion_sort_key:
  fixes k1 :: "'a \<Rightarrow> 'k::linorder" and k2 :: "'a \<Rightarrow> 'l::linorder"
  assumes "\<forall>a\<in>set xs. \<forall>b\<in>set xs. number (cmp a b) \<le> 0 \<longleftrightarrow> k1 a \<le> k1 b"
      and "sorted (map k2 xs)"
  shows "foldr (insert_by cmp) xs [] = sort_key (\<lambda>r. (k1 r, k2 r)) xs"
  using assms
proof (induction xs)
  case Nil
  then show ?case by simp
next
  case (Cons x xs)
  then have IH: "foldr (insert_by cmp) xs [] = sort_key (\<lambda>r. (k1 r, k2 r)) xs" by simp
  have "number (cmp x y) \<le> 0 \<longleftrightarrow> (k1 x, k2 x) \<le> (k1 y, k2 y)" if "y \<in> set xs" for y
  proof -
    from Cons.prems(2) that have "k2 x \<le> k2 y" by auto
    moreover from Cons.prems(1) that have "number (cmp x y) \<le> 0 \<longleftrightarrow> k1 x \<le> k1 y" by simp
    ultimately show ?thesis by auto
  qed
  then have "insert_by cmp x (sort_key (\<lambda>r. (k1 r, k2 r)) xs)
           = insort_key (\<lambda>r. (k1 r, k2 r)) x (sort_key (\<lambda>r. (k1 r, k2 r)) xs)"
    by (intro insert_by_insort_key) simp
  with IH show ?case by simp
qed

lemma precedence_eq: "precedence s = precedence s' \<longleftrightarrow> s = s'"
  by (cases s; cases s') auto

lemma precedence_le: "precedence s \<le> precedence s' \<longleftrightarrow> s = notion \<or> s' = asana"
  by (cases s; cases s') auto

lemma timeOf_Some:
  "timeOf e r = Some t \<longleftrightarrow> truthy (lastModified r) \<and> dateOf e (lastModified r) = Some t"
  by (simp add: timeOf_def)

lemma sortCompare_dated:
  "timeOf e a = Some ta \<Longrightarrow> timeOf e b = Some tb \<Longrightarrow> sortCompare e a b = Some (tb - ta)"
  by (simp add: sortCompare_def timeOf_Some)

lemma sortCompare_undated:
  "\<not> truthy (lastModified a) \<or> \<not> truthy (lastModified b) \<Longrightarrow>
   sortCompare e a b =
     Some (if source a \<noteq> source b then (if source a = notion then - 1 else 1)
           else localeCompare e (title a) (title b))"
  by (auto simp: sortCompare_def)

lemma dated_time:
  assumes "\<forall>r\<in>set ds. timeOf e r \<noteq> None" and "r \<in> set ds"
  shows "timeOf e r = Some (the (timeOf e r))"
  using assms by (cases "timeOf e r") auto

lemma dated_compare:
  assumes d: "\<forall>r\<in>set ds. timeOf e r \<noteq> None" and a: "a \<in> set ds" and b: "b \<in> set ds"
  shows "sortCompare e a b = Some (the (timeOf e b) - the (timeOf e a))"
  using sortCompare_dated[OF dated_time[OF d a] dated_time[OF d b]] .

lemma dated_consistent:
  assumes d: "\<forall>r\<in>set ds. timeOf e r \<noteq> None"
  shows "consistent (sortCompare e) ds"
  unfolding consistent_def
proof (intro conjI ballI impI)
  fix a b assume "a \<in> set ds" "b \<in> set ds"
  then show "sortCompare e a b \<noteq> None" by (simp add: dated_compare[OF d])
next
  fix a assume "a \<in> set ds"
  then show "sortCompare e a a = Some 0" by (simp add: dated_compare[OF d])
next
  fix a b assume "a \<in> set ds" "b \<in> set ds" "sortCompare e a b = Some 0"
  then show "sortCompare e b a = Some 0" by (simp add: dated_compare[OF d])
next
  fix a b c assume "a \<in> set ds" "b \<in> set ds" "c \<in> set ds"
    "sortCompare e a b = Some 0 \<and> sortCompare e b c = Some 0"
  then show "sortCompare e a c = Some 0" by (simp add: dated_compare[OF d])
next
  fix a b c assume "a \<in> set ds" "b \<in> set ds" "c \<in> set ds"
    "negative (sortCompare e a b) \<and> negative (sortCompare e b c)"
  then show "negative (sortCompare e a c)" by (simp add: dated_compare[OF d])
next
  fix a b c assume "a \<in> set ds" "b \<in> set ds" "c \<in> set ds"
    "positive (sortCompare e a b) \<and> positive (sortCompare e b c)"
  then show "positive (sortCompare e a c)" by (simp add: dated_compare[OF d])
qed

lemma sorted_wrt_all: "(\<forall>a\<in>set xs. \<forall>b\<in>set xs. R a b) \<Longrightarrow> sorted_wrt R xs"
  by (induction xs) auto

lemma merged_by_source:
  assumes "\<forall>r\<in>set ns. source r = notion" and "\<forall>r\<in>set as. source r = asana"
  shows "sorted (map (\<lambda>r. precedence (source r)) (ns @ as))"
proof -
  have "sorted_wrt (\<lambda>a b. precedence (source a) \<le> precedence (source b)) ns"
    using assms(1) by (intro sorted_wrt_all) simp
  moreover have "sorted_wrt (\<lambda>a b. precedence (source a) \<le> precedence (source b)) as"
    using assms(2) by (intro sorted_wrt_all) simp
  ultimately show ?thesis
    using assms by (simp add: sorted_map sorted_wrt_append)
qed

lemma sort_merged:
  assumes d: "\<forall>r\<in>set (ns @ as). timeOf e r \<noteq> None"
      and n: "\<forall>r\<in>set ns. source r = notion" and a: "\<forall>r\<in>set as. source r = asana"
  shows "sortSearchResults e (ns @ as)
       = sort_key (\<lambda>r. (- the (timeOf e r), precedence (source r))) (ns @ as)"
proof -
  have "sortSearchResults e (ns @ as) = foldr (insert_by (sortCompare e)) (ns @ as) []"
    unfolding sortSearchResults_def by (rule array_sort_consistent[OF dated_consistent[OF d]])
  also have "\<dots> = sort_key (\<lambda>r. (- the (timeOf e r), precedence (source r))) (ns @ as)"
  proof (rule insertion_sort_key)
    show "\<forall>x\<in>set (ns @ as). \<forall>y\<in>set (ns @ as).
        number (sortCompare e x y) \<le> 0 \<longleftrightarrow> - the (timeOf e x) \<le> - the (timeOf e y)"
      by (intro ballI) (simp add: dated_compare[OF d])
    show "sorted (map (\<lambda>r. precedence (source r)) (ns @ as))"
      using n a by (rule merged_by_source)
  qed
  finally show ?thesis .
qed

lemmas sort_eval = sortSearchResults_def array_sort_def consistent_def sortCompare_def
  exampleEnv_def exampleTime_def codeOrder_def

text \<open>
  C1, as stated, fails. Two results of one backend with the same date are never
  compared by title: \<^verbatim>\<open>search\<close> returns them as the backend listed them, title
  \<open>b\<close> in front of title \<open>a\<close>. And a result without \<open>lastModified\<close> is compared by
  source, so an undated notion result is put in front of a dated asana result.
\<close>

theorem sortSearchResults_counterexample:
  "fst (search sameDayEnv ''q'' (initial ''p''))
     = Inr [mkResult ''notion-resource-0'' notion ''b'' ''d'' (Some ''2024-01-05''),
            mkResult ''notion-resource-1'' notion ''a'' ''d'' (Some ''2024-01-05'')]
   \<and> sortSearchResults helloEnv
        [mkResult ''1'' asana ''x'' ''c'' (Some ''2024-01-05''), mkResult ''2'' notion ''y'' ''c'' None]
     = [mkResult ''2'' notion ''y'' ''c'' None, mkResult ''1'' asana ''x'' ''c'' (Some ''2024-01-05'')]"
  by (simp add: search_def callSearchService_def trim_def isWhiteSpace_def initial_def
        sameDayEnv_def helloEnv_def sort_eval Let_def)

text \<open>
  C1, amended. The sort always returns a permutation of its input \<open>rs\<close>. On a merged
  list, the notion results \<open>ns\<close> followed by the asana results \<open>as\<close>, whose entries
  all have a \<open>lastModified\<close> that is a date, the result is ordered newest first, with
  notion in front of asana among equal dates, and entries with the same date and source
  keep their input order: their titles are not compared. On a list \<open>us\<close> whose entries
  all lack a \<open>lastModified\<close>, and on which the comparator is consistent, the result is
  ordered by source, notion before asana, then by title in the order \<^verbatim>\<open>localeCompare\<close>
  gives, and entries of one source whose titles compare equal keep their input order.
  Nothing but the permutation is said of other lists.
\<close>

theorem sortSearchResults_order:
  assumes dated: "\<forall>r\<in>set (ns @ as). timeOf e r \<noteq> None"
      and nsrc: "\<forall>r\<in>set ns. source r = notion"
      and asrc: "\<forall>r\<in>set as. source r = asana"
      and undated: "\<forall>r\<in>set us. \<not> truthy (lastModified r)"
      and cons: "consistent (sortCompare e) us"
  shows "mset (sortSearchResults e rs) = mset rs
    \<and> sorted_wrt (\<lambda>a b. the (timeOf e b) < the (timeOf e a)
                      \<or> timeOf e a = timeOf e b \<and> (source a = notion \<or> source b = asana))
        (sortSearchResults e (ns @ as))
    \<and> (\<forall>t s. filter (\<lambda>r. timeOf e r = Some t \<and> source r = s) (sortSearchResults e (ns @ as))
             = filter (\<lambda>r. timeOf e r = Some t \<and> source r = s) (ns @ as))
    \<and> sorted_wrt (\<lambda>a b. source a = notion \<and> source b = asana
                      \<or> source a = source b \<and> localeCompare e (title a) (title b) \<le> 0)
        (sortSearchResults e us)
    \<and> (\<forall>x\<in>set us.
          filter (\<lambda>y. source y = source x \<and> localeCompare e (title x) (title y) = 0)
            (sortSearchResults e us)
        = filter (\<lambda>y. source y = source x \<and> localeCompare e (title x) (title y) = 0) us)"
proof -
  let ?K = "\<lambda>r. (- the (timeOf e r), precedence (source r))"
  let ?ds = "ns @ as"
  have perm: "mset (sortSearchResults e rs) = mset rs"
    by (simp add: sortSearchResults_def mset_array_sort)
  have sm: "sortSearchResults e ?ds = sort_key ?K ?ds" using dated nsrc asrc by (rule sort_merged)
  have set_ds: "set (sortSearchResults e ?ds) = set ?ds" by (simp add: sm)
  have "sorted (map ?K (sort_key ?K ?ds))" by (rule sorted_sort_key)
  then have "sorted_wrt (\<lambda>a b. ?K a \<le> ?K b) (sortSearchResults e ?ds)"
    by (simp add: sm sorted_map)
  then have byDate: "sorted_wrt (\<lambda>a b. the (timeOf e b) < the (timeOf e a)
                      \<or> timeOf e a = timeOf e b \<and> (source a = notion \<or> source b = asana))
        (sortSearchResults e ?ds)"
  proof (rule sorted_wrt_mono_rel[rotated])
    fix a b assume a: "a \<in> set (sortSearchResults e ?ds)" and b: "b \<in> set (sortSearchResults e ?ds)"
      and le: "?K a \<le> ?K b"
    from a b set_ds have ta: "timeOf e a = Some (the (timeOf e a))"
      and tb: "timeOf e b = Some (the (timeOf e b))"
      using dated_time[OF dated] by auto
    from le have "the (timeOf e b) < the (timeOf e a)
        \<or> the (timeOf e a) = the (timeOf e b) \<and> precedence (source a) \<le> precedence (source b)"
      by auto
    with ta tb show "the (timeOf e b) < the (timeOf e a)
                      \<or> timeOf e a = timeOf e b \<and> (source a = notion \<or> source b = asana)"
      by (auto simp: precedence_le)
  qed
  have stableDate: "\<forall>t s. filter (\<lambda>r. timeOf e r = Some t \<and> source r = s) (sortSearchResults e ?ds)
             = filter (\<lambda>r. timeOf e r = Some t \<and> source r = s) ?ds"
  proof (intro allI)
    fix t s
    have key: "(?K r = (- t, precedence s)) = (timeOf e r = Some t \<and> source r = s)"
      if "r \<in> set ?ds" for r
      using dated_time[OF dated that] by (auto simp: precedence_eq)
    have "filter (\<lambda>r. ?K r = (- t, precedence s)) (sort_key ?K ?ds)
        = filter (\<lambda>r. ?K r = (- t, precedence s)) ?ds"
      by (rule sort_key_stable)
    moreover have "filter (\<lambda>r. ?K r = (- t, precedence s)) xs
        = filter (\<lambda>r. timeOf e r = Some t \<and> source r = s) xs" if "set xs \<subseteq> set ?ds" for xs
      using that key by (intro filter_cong) auto
    ultimately show "filter (\<lambda>r. timeOf e r = Some t \<and> source r = s) (sortSearchResults e ?ds)
             = filter (\<lambda>r. timeOf e r = Some t \<and> source r = s) ?ds"
      using set_ds by (simp add: sm)
  qed
  have su: "sortSearchResults e us = foldr (insert_by (sortCompare e)) us []"
    unfolding sortSearchResults_def by (rule array_sort_consistent[OF cons])
  have set_us: "set (sortSearchResults e us) = set us" by (simp add: su set_insertion)
  have "sorted_wrt (\<lambda>a b. number (sortCompare e a b) \<le> 0) (sortSearchResults e us)"
    unfolding su by (rule sorted_insertion[OF cons]) simp
  then have byTitle: "sorted_wrt (\<lambda>a b. source a = notion \<and> source b = asana
                      \<or> source a = source b \<and> localeCompare e (title a) (title b) \<le> 0)
        (sortSearchResults e us)"
  proof (rule sorted_wrt_mono_rel[rotated])
    fix a b assume a: "a \<in> set (sortSearchResults e us)" and b: "b \<in> set (sortSearchResults e us)"
      and le: "number (sortCompare e a b) \<le> 0"
    from a set_us undated have "\<not> truthy (lastModified a)" by auto
    then have "sortCompare e a b =
        Some (if source a \<noteq> source b then (if source a = notion then - 1 else 1)
              else localeCompare e (title a) (title b))"
      by (intro sortCompare_undated) simp
    with le show "source a = notion \<and> source b = asana
                      \<or> source a = source b \<and> localeCompare e (title a) (title b) \<le> 0"
      by (cases "source a"; cases "source b") (auto split: if_splits)
  qed
  have stableTitle: "\<forall>x\<in>set us.
          filter (\<lambda>y. source y = source x \<and> localeCompare e (title x) (title y) = 0)
            (sortSearchResults e us)
        = filter (\<lambda>y. source y = source x \<and> localeCompare e (title x) (title y) = 0) us"
  proof
    fix x assume x: "x \<in> set us"
    with undated have ux: "\<not> truthy (lastModified x)" by auto
    have eq0: "(sortCompare e x y = Some 0)
        = (source y = source x \<and> localeCompare e (title x) (title y) = 0)" for y
      using sortCompare_undated[of x y e] ux by (cases "source x"; cases "source y") auto
    have "filter (\<lambda>y. sortCompare e x y = Some 0) (foldr (insert_by (sortCompare e)) us [])
        = filter (\<lambda>y. sortCompare e x y = Some 0) us"
      by (rule stable_insertion[OF cons _ x]) simp
    then show "filter (\<lambda>y. source y = source x \<and> localeCompare e (title x) (title y) = 0)
            (sortSearchResults e us)
        = filter (\<lambda>y. source y = source x \<and> localeCompare e (title x) (title y) = 0) us"
      by (simp add: su eq0)
  qed
  show ?thesis by (intro conjI perm byDate stableDate byTitle stableTitle)
qed

theorem sortSearchResults_order_witness:
  "list_all (\<lambda>r. timeOf helloEnv r \<noteq> None)
     ([mkResult ''1'' notion ''b'' ''c'' (Some ''2024-01-05''),
       mkResult ''2'' notion ''a'' ''c'' (Some ''2024-01-09'')]
      @ [mkResult ''3'' asana ''c'' ''c'' (Some ''2024-01-05''),
         mkResult ''4'' asana ''a'' ''c'' (Some ''2024-01-05'')])
   \<and> consistent (sortCompare helloEnv)
        [mkResult ''5'' asana ''x'' ''c'' None, mkResult ''6'' notion ''b'' ''c'' None,
         mkResult ''7'' notion ''a'' ''c'' None]
   \<and> sortSearchResults helloEnv
        ([mkResult ''1'' notion ''b'' ''c'' (Some ''2024-01-05''),
          mkResult ''2'' notion ''a'' ''c'' (Some ''2024-01-09'')]
         @ [mkResult ''3'' asana ''c'' ''c'' (Some ''2024-01-05''),
            mkResult ''4'' asana ''a'' ''c'' (Some ''2024-01-05'')])
     = [mkResult ''2'' notion ''a'' ''c'' (Some ''2024-01-09''),
        mkResult ''1'' notion ''b'' ''c'' (Some ''2024-01-05''),
        mkResult ''3'' asana ''c'' ''c'' (Some ''2024-01-05''),
        mkResult ''4'' asana ''a'' ''c'' (Some ''2024-01-05'')]
   \<and> sortSearchResults helloEnv
        [mkResult ''5'' asana ''x'' ''c'' None, mkResult ''6'' notion ''b'' ''c'' None,
         mkResult ''7'' notion ''a'' ''c'' None]
     = [mkResult ''7'' notion ''a'' ''c'' None, mkResult ''6'' notion ''b'' ''c'' None,
        mkResult ''5'' asana ''x'' ''c'' None]
   \<and> sorted_wrt (\<lambda>a b. the (timeOf helloEnv b) < the (timeOf helloEnv a)
                      \<or> timeOf helloEnv a = timeOf helloEnv b \<and> (source a = notion \<or> source b = asana))
        (sortSearchResults helloEnv
          ([mkResult ''1'' notion ''b'' ''c'' (Some ''2024-01-05''),
            mkResult ''2'' notion ''a'' ''c'' (Some ''2024-01-09'')]
           @ [mkResult ''3'' asana ''c'' ''c'' (Some ''2024-01-05''),
              mkResult ''4'' asana ''a'' ''c'' (Some ''2024-01-05'')]))
   \<and> sorted_wrt (\<lambda>a b. source a = notion \<and> source b = asana
                      \<or> source a = source b \<and> localeCompare helloEnv (title a) (title b) \<le> 0)
        (sortSearchResults helloEnv
          [mkResult ''5'' asana ''x'' ''c'' None, mkResult ''6'' notion ''b'' ''c'' None,
           mkResult ''7'' notion ''a'' ''c'' None])"
proof -
  let ?ns = "[mkResult ''1'' notion ''b'' ''c'' (Some ''2024-01-05''),
              mkResult ''2'' notion ''a'' ''c'' (Some ''2024-01-09'')]"
  let ?as = "[mkResult ''3'' asana ''c'' ''c'' (Some ''2024-01-05''),
              mkResult ''4'' asana ''a'' ''c'' (Some ''2024-01-05'')]"
  let ?us = "[mkResult ''5'' asana ''x'' ''c'' None, mkResult ''6'' notion ''b'' ''c'' None,
              mkResult ''7'' notion ''a'' ''c'' None]"
  have d: "\<forall>r\<in>set (?ns @ ?as). timeOf helloEnv r \<noteq> None"
    by (simp add: timeOf_def helloEnv_def exampleEnv_def exampleTime_def)
  have n: "\<forall>r\<in>set ?ns. source r = notion" by simp
  have a: "\<forall>r\<in>set ?as. source r = asana" by simp
  have u: "\<forall>r\<in>set ?us. \<not> truthy (lastModified r)" by simp
  have c: "consistent (sortCompare helloEnv) ?us"
    by (simp add: consistent_def sortCompare_def helloEnv_def exampleEnv_def codeOrder_def)
  have d': "list_all (\<lambda>r. timeOf helloEnv r \<noteq> None) (?ns @ ?as)"
    using d by (simp only: list_all_iff)
  have e1: "sortSearchResults helloEnv (?ns @ ?as)
     = [mkResult ''2'' notion ''a'' ''c'' (Some ''2024-01-09''),
        mkResult ''1'' notion ''b'' ''c'' (Some ''2024-01-05''),
        mkResult ''3'' asana ''c'' ''c'' (Some ''2024-01-05''),
        mkResult ''4'' asana ''a'' ''c'' (Some ''2024-01-05'')]"
    unfolding sortSearchResults_def array_sort_consistent[OF dated_consistent[OF d]]
    by (simp add: sortCompare_def helloEnv_def exampleEnv_def exampleTime_def)
  have e2: "sortSearchResults helloEnv ?us
     = [mkResult ''7'' notion ''a'' ''c'' None, mkResult ''6'' notion ''b'' ''c'' None,
        mkResult ''5'' asana ''x'' ''c'' None]"
    unfolding sortSearchResults_def array_sort_consistent[OF c]
    by (simp add: sortCompare_def helloEnv_def exampleEnv_def codeOrder_def)
  from sortSearchResults_order[OF d n a u c, of "[]"] d' c e1 e2 show ?thesis by blast
qed

section \<open>The aggregate search\<close>

lemma trim_nonempty: "trim q \<noteq> [] \<Longrightarrow> q \<noteq> []"
  by (auto simp: trim_def)

text \<open>
  C2. For a query that is not empty after trimming, \<^verbatim>\<open>search\<close> calls both backends
  (the asana call is made whatever the notion call did), does not throw, and returns
  exactly the results of the backends that succeeded, as a list sorted from their
  concatenation; when both fail it returns the empty list. Here \<open>n\<close> and \<open>a\<close> are the
  outcomes of the two backend calls.
\<close>

theorem search_partial_failure:
  assumes "trim query \<noteq> []"
      and "n = searchService e (length (searched st)) notion (trim query)"
      and "a = searchService e (Suc (length (searched st))) asana (trim query)"
  shows "\<exists>rs. fst (search e query st) = Inr rs
           \<and> mset rs = mset (case n of Inr v \<Rightarrow> v | Inl m \<Rightarrow> []) + mset (case a of Inr v \<Rightarrow> v | Inl m \<Rightarrow> [])
           \<and> (isl n \<and> isl a \<longrightarrow> rs = [])
           \<and> searched (snd (search e query st)) = searched st @ [(notion, trim query), (asana, trim query)]"
proof -
  have q: "query \<noteq> []" using assms(1) by (rule trim_nonempty)
  have s: "search e query st =
      (Inr (sortSearchResults e (fulfilled n @ fulfilled a)),
       st\<lparr>searched := searched st @ [(notion, trim query), (asana, trim query)]\<rparr>)"
    using assms q by (simp add: search_def callSearchService_def Let_def)
  have m: "mset (sortSearchResults e (fulfilled n @ fulfilled a))
         = mset (case n of Inr v \<Rightarrow> v | Inl m \<Rightarrow> []) + mset (case a of Inr v \<Rightarrow> v | Inl m \<Rightarrow> [])"
    by (cases n; cases a) (simp_all add: sortSearchResults_def mset_array_sort)
  have z: "isl n \<and> isl a \<longrightarrow> sortSearchResults e (fulfilled n @ fulfilled a) = []"
    by (cases n; cases a) (simp_all add: sortSearchResults_def array_sort_def consistent_def)
  from s m z show ?thesis by simp
qed

theorem search_partial_failure_witness:
  "trim '' q '' \<noteq> []
   \<and> fst (search failingEnv '' q '' (initial ''p''))
       = Inr [mkResult ''asana-resource-0'' asana ''doc1'' ''q'' (Some ''2024-01-07'')]
   \<and> searched (snd (search failingEnv '' q '' (initial ''p''))) = [(notion, ''q''), (asana, ''q'')]
   \<and> trim ''x'' \<noteq> []
   \<and> fst (search failingEnv ''x'' (initial ''p'')) = Inr []"
proof -
  have t: "trim '' q '' = ''q''" "trim ''x'' = ''x''" by (simp_all add: trim_def isWhiteSpace_def)
  have h: "trim '' q '' \<noteq> []" "trim ''x'' \<noteq> []" by (simp_all add: t)
  from search_partial_failure[OF h(1) refl refl, of failingEnv "initial ''p''"]
       search_partial_failure[OF h(2) refl refl, of failingEnv "initial ''p''"]
  show ?thesis
    by (auto simp: t failingEnv_def exampleEnv_def initial_def)
qed

section \<open>Deduplication\<close>

text \<open>
  C5. The key is one string in which source, title and content are joined by hyphens,
  so two results that differ in title and content can have the same key: the second
  result below is dropped although its title and its content differ from the first's.
\<close>

theorem deduplicateResults_key_collision:
  "deduplicateResults [mkResult ''1'' notion ''a-b'' ''c'' None, mkResult ''2'' notion ''a'' ''b-c'' None]
     = [mkResult ''1'' notion ''a-b'' ''c'' None]
   \<and> (source (mkResult ''1'' notion ''a-b'' ''c'' None), title (mkResult ''1'' notion ''a-b'' ''c'' None),
        take 100 (content (mkResult ''1'' notion ''a-b'' ''c'' None)))
     \<noteq> (source (mkResult ''2'' notion ''a'' ''b-c'' None), title (mkResult ''2'' notion ''a'' ''b-c'' None),
        take 100 (content (mkResult ''2'' notion ''a'' ''b-c'' None)))"
  by (simp add: deduplicateResults_def resultKey_def)

text \<open>
  The rest of what is said of \<^verbatim>\<open>deduplicate\<close> holds for the key as the code builds
  it: the result has no two entries with the same key, it is a sublist of the input
  that starts with every first occurrence, and applying it twice changes nothing.
\<close>

lemma dedupLoop_acc: "dedupLoop seen acc rs = acc @ dedupLoop seen [] rs"
proof (induction rs arbitrary: seen acc)
  case Nil
  then show ?case by simp
next
  case (Cons r rs)
  show ?case
    using Cons.IH[of "insert (resultKey r) seen" "acc @ [r]"] Cons.IH[of "insert (resultKey r) seen" "[r]"]
          Cons.IH[of seen acc]
    by simp
qed

lemma dedupLoop_keys:
  "distinct (map resultKey (dedupLoop seen [] rs)) \<and> resultKey ` set (dedupLoop seen [] rs) \<inter> seen = {}
   \<and> set (dedupLoop seen [] rs) \<subseteq> set rs"
proof (induction rs arbitrary: seen)
  case Nil
  then show ?case by simp
next
  case (Cons r rs)
  show ?case
  proof (cases "resultKey r \<in> seen")
    case True
    then show ?thesis using Cons.IH[of seen] by auto
  next
    case False
    have "dedupLoop seen [] (r # rs) = r # dedupLoop (insert (resultKey r) seen) [] rs"
      using False dedupLoop_acc[of "insert (resultKey r) seen" "[r]" rs] by simp
    then show ?thesis using Cons.IH[of "insert (resultKey r) seen"] False by auto
  qed
qed

lemma dedupLoop_fixed:
  "distinct (map resultKey rs) \<Longrightarrow> resultKey ` set rs \<inter> seen = {} \<Longrightarrow> dedupLoop seen [] rs = rs"
proof (induction rs arbitrary: seen)
  case Nil
  then show ?case by simp
next
  case (Cons r rs)
  then have nin: "resultKey r \<notin> seen" by auto
  have "dedupLoop seen [] (r # rs) = r # dedupLoop (insert (resultKey r) seen) [] rs"
    using nin dedupLoop_acc[of "insert (resultKey r) seen" "[r]" rs] by simp
  moreover have "dedupLoop (insert (resultKey r) seen) [] rs = rs"
    using Cons.prems by (intro Cons.IH) auto
  ultimately show ?case by simp
qed

lemma deduplicateResults_idempotent:
  "deduplicateResults (deduplicateResults rs) = deduplicateResults rs"
  unfolding deduplicateResults_def
  using dedupLoop_keys[of "{}" rs] by (intro dedupLoop_fixed) auto

section \<open>What each step leaves unchanged\<close>

lemma callSend_simps [simp]:
  "fst (callSend e input st) = send e (length (sent st)) input"
  "snd (callSend e input st) = st\<lparr>sent := sent st @ [input]\<rparr>"
  by (simp_all add: callSend_def)

lemma converse_frame:
  "converse e m tools p st = (r, st') \<Longrightarrow>
     conversations st' = conversations st \<and> ticks st' = ticks st \<and> searched st' = searched st
     \<and> systemPrompt st' = systemPrompt st \<and> modelId st' = modelId st"
  by (auto simp: converse_def callSend_def Let_def split: sum.splits option.splits)

lemma continue_frame:
  "continueWithToolResults e trs st = (r, st') \<Longrightarrow>
     conversations st' = conversations st \<and> ticks st' = ticks st \<and> searched st' = searched st
     \<and> systemPrompt st' = systemPrompt st \<and> modelId st' = modelId st"
  by (auto simp: continueWithToolResults_def callSend_def Let_def split: sum.splits option.splits)

lemma executeMCPTool_frame:
  "executeMCPTool e n i st = (r, st') \<Longrightarrow>
     conversations st' = conversations st \<and> ticks st' = ticks st \<and> sent st' = sent st
     \<and> conversationHistory st' = conversationHistory st
     \<and> systemPrompt st' = systemPrompt st \<and> modelId st' = modelId st"
  by (auto simp: executeMCPTool_def callSearchService_def Let_def split: option.splits if_splits)

lemma executeTools_frame:
  "executeTools e us acc st = (r, st') \<Longrightarrow>
     conversations st' = conversations st \<and> ticks st' = ticks st \<and> sent st' = sent st
     \<and> conversationHistory st' = conversationHistory st
     \<and> systemPrompt st' = systemPrompt st \<and> modelId st' = modelId st"
proof (induction e us acc st arbitrary: r st' rule: executeTools.induct)
  case (1 e acc st)
  then show ?case by simp
next
  case (2 e toolUse rest toolResults toolsUsed searchResults st)
  obtain o1 st1 where ex: "executeMCPTool e (tu_name toolUse) (tu_input toolUse) st = (o1, st1)"
    by (cases "executeMCPTool e (tu_name toolUse) (tu_input toolUse) st")
  note f = executeMCPTool_frame[OF ex]
  show ?case
  proof (cases o1)
    case (Inl m)
    with "2.prems" ex have "executeTools e rest
            (toolResults @ [\<lparr>toolUseId = tu_toolUseId toolUse, result = None, error = Some m\<rparr>],
             toolsUsed, searchResults) st1 = (r, st')" by simp
    from "2.IH"(1)[OF ex[symmetric] Inl this] f show ?thesis by simp
  next
    case (Inr res)
    with "2.prems" ex have "executeTools e rest
            (toolResults @ [\<lparr>toolUseId = tu_toolUseId toolUse, result = Some res, error = None\<rparr>],
             toolsUsed @ [tu_name toolUse],
             searchResults @ (if res \<noteq> [] then res else [])) st1 = (r, st')" by simp
    from "2.IH"(2)[OF ex[symmetric] Inr this] f show ?thesis by simp
  qed
qed

lemma runTurn_frame:
  assumes "runTurn e m st = (r, st')"
  shows "conversations st' = conversations st \<and> ticks st' = ticks st"
proof -
  obtain r1 st1 where c: "converse e m getMCPToolSpecs (Some (systemPrompt st)) st = (r1, st1)"
    by (cases "converse e m getMCPToolSpecs (Some (systemPrompt st)) st")
  note f1 = converse_frame[OF c]
  show ?thesis
  proof (cases r1)
    case (Inl err)
    with assms c f1 show ?thesis by (simp add: runTurn_def)
  next
    case (Inr llm)
    show ?thesis
    proof (cases "needsToolExecution llm \<and> length (toolUses llm) > 0")
      case False
      with assms c Inr f1 show ?thesis by (auto simp: runTurn_def)
    next
      case True
      obtain trs tus srs st2 where x: "executeTools e (toolUses llm) ([], [], []) st1 = ((trs, tus, srs), st2)"
        by (cases "executeTools e (toolUses llm) ([], [], []) st1") auto
      obtain r3 st3 where k: "continueWithToolResults e trs st2 = (r3, st3)"
        by (cases "continueWithToolResults e trs st2")
      have "st' = st3" using assms c Inr True x k by (auto simp: runTurn_def split: sum.splits)
      with f1 executeTools_frame[OF x] continue_frame[OF k] show ?thesis by simp
    qed
  qed
qed

lemma resolve_explicit: "cid \<noteq> [] \<Longrightarrow> resolveConversation e (Some cid) st = (cid, st)"
  by (simp add: resolveConversation_def)

lemma converse_sent:
  "sent (snd (converse e m tools p st)) =
     sent st @ [\<lparr>in_modelId = modelId st, in_messages = conversationHistory st @ [(user, [TextBlock m])],
                in_system = (case p of Some q \<Rightarrow> if q \<noteq> [] then Some q else None | None \<Rightarrow> None),
                in_toolConfig = (if tools \<noteq> [] then Some tools else None)\<rparr>]"
  by (auto simp: converse_def callSend_def Let_def split: sum.splits option.splits)

lemma continue_sent:
  "sent (snd (continueWithToolResults e trs st)) =
     sent st @ [\<lparr>in_modelId = modelId st,
                in_messages = conversationHistory st @ [(user, map toolResultBlock trs)],
                in_system = None, in_toolConfig = None\<rparr>]"
  by (auto simp: continueWithToolResults_def callSend_def Let_def split: sum.splits option.splits)

lemma runTurn_sent:
  "\<exists>rest. sent (snd (runTurn e m st)) =
     sent st @ \<lparr>in_modelId = modelId st, in_messages = conversationHistory st @ [(user, [TextBlock m])],
                in_system = (if systemPrompt st \<noteq> [] then Some (systemPrompt st) else None),
                in_toolConfig = Some getMCPToolSpecs\<rparr> # rest"
proof -
  let ?first = "\<lparr>in_modelId = modelId st, in_messages = conversationHistory st @ [(user, [TextBlock m])],
                in_system = (if systemPrompt st \<noteq> [] then Some (systemPrompt st) else None),
                in_toolConfig = Some getMCPToolSpecs\<rparr>"
  obtain r1 st1 where c: "converse e m getMCPToolSpecs (Some (systemPrompt st)) st = (r1, st1)"
    by (cases "converse e m getMCPToolSpecs (Some (systemPrompt st)) st")
  have s1: "sent st1 = sent st @ [?first]"
    using converse_sent[of e m getMCPToolSpecs "Some (systemPrompt st)" st] c
    by (simp add: getMCPToolSpecs_def)
  show ?thesis
  proof (cases r1)
    case (Inl err)
    with c s1 show ?thesis by (simp add: runTurn_def)
  next
    case (Inr llm)
    show ?thesis
    proof (cases "needsToolExecution llm \<and> length (toolUses llm) > 0")
      case False
      with c Inr s1 show ?thesis by (auto simp: runTurn_def)
    next
      case True
      obtain trs tus srs st2 where x: "executeTools e (toolUses llm) ([], [], []) st1 = ((trs, tus, srs), st2)"
        by (cases "executeTools e (toolUses llm) ([], [], []) st1") auto
      obtain r3 st3 where k: "continueWithToolResults e trs st2 = (r3, st3)"
        by (cases "continueWithToolResults e trs st2")
      have "snd (runTurn e m st) = st3"
        using c Inr True x k by (auto simp: runTurn_def split: sum.splits)
      moreover have "sent st3 = sent st2 @ [\<lparr>in_modelId = modelId st2,
                in_messages = conversationHistory st2 @ [(user, map toolResultBlock trs)],
                in_system = None, in_toolConfig = None\<rparr>]"
        using continue_sent[of e trs st2] k by simp
      moreover have "sent st2 = sent st1" using executeTools_frame[OF x] by simp
      ultimately show ?thesis using s1 by simp
    qed
  qed
qed

lemma resolve_frame:
  "resolveConversation e cid st = (cid', st0) \<Longrightarrow>
     sent st0 = sent st \<and> conversationHistory st0 = conversationHistory st \<and> modelId st0 = modelId st
     \<and> systemPrompt st0 = systemPrompt st \<and> searched st0 = searched st"
  by (auto simp: resolveConversation_def createConversation_def Let_def split: option.splits if_splits)

lemma appendTurn_frame:
  "sent (appendTurn e cid c m f t st) = sent st \<and> conversationHistory (appendTurn e cid c m f t st) = conversationHistory st
   \<and> searched (appendTurn e cid c m f t st) = searched st"
  by (simp add: appendTurn_def Let_def)

lemmas eval_defs = chat_def resolveConversation_def createConversation_def runTurn_def converse_def
  continueWithToolResults_def callSend_def callSearchService_def executeMCPTool_def appendTurn_def
  exampleEnv_def initial_def textReply_def toolReply_def getMCPToolSpecs_def textOf_def
  toolResultBlock_def trim_def isWhiteSpace_def Let_def

section \<open>Validation\<close>

text \<open>
  C8. A text that is empty after trimming is rejected by \<^verbatim>\<open>search\<close> and by
  \<^verbatim>\<open>chat\<close> with their validation errors, and the state comes back as it was: no
  backend call has been recorded and no request has been sent to the model.
\<close>

theorem empty_request_rejected:
  assumes "trim txt = []"
  shows "search e txt st = (Inl (ApiError ''Search query cannot be empty'' None), st)
       \<and> chat e txt conversationId st = (Inl (ApiError ''Message cannot be empty'' None), st)
       \<and> searched (snd (search e txt st)) = searched st
       \<and> sent (snd (chat e txt conversationId st)) = sent st"
  using assms by (simp add: search_def chat_def)

theorem empty_request_rejected_witness:
  "trim [CHR 0x20, CHR 0x09, CHR 0x0A] = []
   \<and> search (exampleEnv (\<lambda>k. Inr (textReply ''hello'')) (\<lambda>s q. Inr [])) [CHR 0x20, CHR 0x09, CHR 0x0A] (initial ''p'')
       = (Inl (ApiError ''Search query cannot be empty'' None), initial ''p'')
   \<and> chat (exampleEnv (\<lambda>k. Inr (textReply ''hello'')) (\<lambda>s q. Inr [])) [] None (initial ''p'')
       = (Inl (ApiError ''Message cannot be empty'' None), initial ''p'')"
proof -
  have h: "trim [CHR 0x20, CHR 0x09, CHR 0x0A] = []" by (simp add: trim_def isWhiteSpace_def)
  have h0: "trim [] = []" by (simp add: trim_def)
  from empty_request_rejected[OF h] empty_request_rejected[OF h0] h show ?thesis by blast
qed

section \<open>The transcript sent to the model\<close>

lemma secondConversation_eval:
  "secondConversation =
     \<lparr>conversations = [''conv_'' \<mapsto> \<lparr>c_id = ''conv_'',
           messages = [\<lparr>m_role = user, m_content = ''hi'', m_timestamp = 2, m_toolsUsed = None\<rparr>,
                       \<lparr>m_role = assistant, m_content = ''hello'', m_timestamp = 3, m_toolsUsed = None\<rparr>],
           createdAt = 0, updatedAt = 4\<rparr>,
         ''conv_xxxxx'' \<mapsto> \<lparr>c_id = ''conv_xxxxx'', messages = [], createdAt = 5, updatedAt = 6\<rparr>],
      systemPrompt = ''p'',
      conversationHistory = [(user, [TextBlock ''hi'']), (assistant, [TextBlock ''hello''])],
      modelId = ''anthropic.claude-3-5-sonnet-20240620-v1:0'',
      sent = [\<lparr>in_modelId = ''anthropic.claude-3-5-sonnet-20240620-v1:0'',
               in_messages = [(user, [TextBlock ''hi''])], in_system = Some ''p'',
               in_toolConfig = Some [''searchNotion'', ''searchAsana'', ''searchAll'']\<rparr>],
      searched = [], ticks = 7\<rparr>"
  by (simp add: secondConversation_def helloEnv_def eval_defs eval_nat_numeral)

text \<open>
  C3, as stated, fails. The client keeps one history for the whole process. After a
  chat in one conversation, a chat in a second, still empty, conversation sends the
  first conversation's two messages in front of the new one.
\<close>

theorem model_transcript_counterexample:
  "map_option messages (conversations secondConversation ''conv_xxxxx'') = Some []
   \<and> in_messages (sent (snd (chat helloEnv ''yo'' (Some ''conv_xxxxx'') secondConversation)) ! 1)
       = [(user, [TextBlock ''hi'']), (assistant, [TextBlock ''hello'']), (user, [TextBlock ''yo''])]"
  by (simp add: secondConversation_eval) (simp add: helloEnv_def eval_defs)

text \<open>
  C3, amended. Whenever \<^verbatim>\<open>chat\<close> reaches the model, the first request it sends holds
  the client's own history, as it stands when the call is made, followed by the new
  user message, together with the system prompt and the three tool declarations. The
  conversation that was resolved plays no part in it.
\<close>

theorem model_receives_history:
  assumes "trim userMessage \<noteq> []"
      and "resolveConversation e conversationId st = (cid, st0)"
      and "conversations st0 cid = Some conversation"
  shows "\<exists>rest. sent (snd (chat e userMessage conversationId st)) =
     sent st @ \<lparr>in_modelId = modelId st,
                in_messages = conversationHistory st @ [(user, [TextBlock userMessage])],
                in_system = (if systemPrompt st \<noteq> [] then Some (systemPrompt st) else None),
                in_toolConfig = Some getMCPToolSpecs\<rparr> # rest"
proof -
  have ne: "\<not> (userMessage = [] \<or> length (trim userMessage) = 0)"
    using assms(1) by (auto simp: trim_def)
  note f = resolve_frame[OF assms(2)]
  obtain r st1 where rt: "runTurn e userMessage st0 = (r, st1)"
    by (cases "runTurn e userMessage st0")
  have "sent (snd (chat e userMessage conversationId st)) = sent st1"
    using ne assms(2,3) rt
    by (auto simp: chat_def appendTurn_frame split: sum.splits prod.splits)
  moreover from runTurn_sent[of e userMessage st0] rt f
  have "\<exists>rest. sent st1 = sent st @ \<lparr>in_modelId = modelId st,
                in_messages = conversationHistory st @ [(user, [TextBlock userMessage])],
                in_system = (if systemPrompt st \<noteq> [] then Some (systemPrompt st) else None),
                in_toolConfig = Some getMCPToolSpecs\<rparr> # rest"
    by (simp cong: if_cong)
  ultimately show ?thesis by simp
qed

theorem model_receives_history_witness:
  "trim ''yo'' \<noteq> []
   \<and> resolveConversation helloEnv (Some ''conv_xxxxx'') secondConversation = (''conv_xxxxx'', secondConversation)
   \<and> conversations secondConversation ''conv_xxxxx''
       = Some \<lparr>c_id = ''conv_xxxxx'', messages = [], createdAt = 5, updatedAt = 6\<rparr>
   \<and> (\<exists>rest. sent (snd (chat helloEnv ''yo'' (Some ''conv_xxxxx'') secondConversation)) =
        sent secondConversation @
        \<lparr>in_modelId = ''anthropic.claude-3-5-sonnet-20240620-v1:0'',
         in_messages = [(user, [TextBlock ''hi'']), (assistant, [TextBlock ''hello'']), (user, [TextBlock ''yo''])],
         in_system = Some ''p'',
         in_toolConfig = Some getMCPToolSpecs\<rparr> # rest)"
proof -
  have h1: "trim ''yo'' \<noteq> []" by (simp add: trim_def isWhiteSpace_def)
  have h2: "resolveConversation helloEnv (Some ''conv_xxxxx'') secondConversation = (''conv_xxxxx'', secondConversation)"
    by (simp add: resolveConversation_def)
  have h3: "conversations secondConversation ''conv_xxxxx''
       = Some \<lparr>c_id = ''conv_xxxxx'', messages = [], createdAt = 5, updatedAt = 6\<rparr>"
    by (simp add: secondConversation_eval)
  from model_receives_history[OF h1 h2 h3] h1 h2 h3 show ?thesis
    by (simp add: secondConversation_eval)
qed

section \<open>The tool loop\<close>

lemma length_dispatchAll: "length (dispatchAll e us st) = length us"
  by (induction us arbitrary: st) (auto split: prod.splits)

lemma executeTools_toolResults:
  "fst (fst (executeTools e us (trs, tus, srs) st))
     = trs @ map (\<lambda>(u, out). toolResultOf u out) (zip us (dispatchAll e us st))"
proof (induction us arbitrary: trs tus srs st)
  case Nil
  then show ?case by simp
next
  case (Cons u us)
  obtain out st1 where ex: "executeMCPTool e (tu_name u) (tu_input u) st = (out, st1)"
    by (cases "executeMCPTool e (tu_name u) (tu_input u) st")
  show ?case
  proof (cases out)
    case (Inl m)
    with ex Cons.IH[of "trs @ [toolResultOf u (Inl m)]" tus srs st1] show ?thesis by simp
  next
    case (Inr res)
    with ex Cons.IH[of "trs @ [toolResultOf u (Inr res)]" "tus @ [tu_name u]"
                      "srs @ (if res \<noteq> [] then res else [])" st1]
    show ?thesis by simp
  qed
qed

lemma executeMCPTool_unknown:
  "n \<notin> set getMCPToolSpecs \<Longrightarrow> \<exists>m. fst (executeMCPTool e n i st) = Inl m"
  by (auto simp: executeMCPTool_def getMCPToolSpecs_def split: option.splits)

lemma dispatchAll_unknown:
  "i < length us \<Longrightarrow> tu_name (us ! i) \<notin> set getMCPToolSpecs \<Longrightarrow> \<exists>m. dispatchAll e us st ! i = Inl m"
proof (induction us arbitrary: i st)
  case Nil
  then show ?case by simp
next
  case (Cons u us)
  obtain out st1 where ex: "executeMCPTool e (tu_name u) (tu_input u) st = (out, st1)"
    by (cases "executeMCPTool e (tu_name u) (tu_input u) st")
  show ?case
  proof (cases i)
    case 0
    with Cons.prems executeMCPTool_unknown[of "tu_name u" e "tu_input u" st] ex show ?thesis by simp
  next
    case (Suc j)
    with Cons.prems Cons.IH[of j st1] ex show ?thesis by simp
  qed
qed

lemma toolResultOf_id [simp]: "toolUseId (toolResultOf u out) = tu_toolUseId u"
  by (cases out) simp_all

lemma converse_needs_tools:
  "converse e m tools p st = (Inr llm, st1) \<Longrightarrow> needsToolExecution llm \<Longrightarrow> toolUses llm \<noteq> []"
  by (auto simp: converse_def callSend_def Let_def split: sum.splits)

text \<open>
  C6. When the first reply needs tools, let \<open>outs\<close> be the outcomes of dispatching
  the requested tool uses in order and \<open>trs\<close> the entries built from them. Every tool
  use is dispatched, whatever happened to the ones before it; \<open>trs\<close> has one entry
  per tool use, with the ids of the tool uses in order; an entry carries the error
  message and no payload when its dispatch failed, and the payload and no error when it
  succeeded; a tool name that is not declared makes the dispatch fail; and the request
  that continues the turn ends with exactly these entries.
\<close>

theorem every_tool_call_gets_a_result:
  assumes conv: "converse e userMessage getMCPToolSpecs (Some (systemPrompt st)) st = (Inr llm, st1)"
      and need: "needsToolExecution llm"
      and outs: "outs = dispatchAll e (toolUses llm) st1"
      and trs: "trs = map (\<lambda>(u, out). toolResultOf u out) (zip (toolUses llm) outs)"
  shows "length outs = length (toolUses llm)
       \<and> map toolUseId trs = map tu_toolUseId (toolUses llm)
       \<and> (\<forall>i<length trs.
            (\<forall>m. outs ! i = Inl m \<longrightarrow> result (trs ! i) = None \<and> error (trs ! i) = Some m)
          \<and> (\<forall>res. outs ! i = Inr res \<longrightarrow> result (trs ! i) = Some res \<and> error (trs ! i) = None))
       \<and> (\<forall>i<length trs. tu_name (toolUses llm ! i) \<notin> set getMCPToolSpecs \<longrightarrow> (\<exists>m. outs ! i = Inl m))
       \<and> sent (snd (runTurn e userMessage st)) =
           sent st1 @ [\<lparr>in_modelId = modelId st,
                        in_messages = conversationHistory st1 @ [(user, map toolResultBlock trs)],
                        in_system = None, in_toolConfig = None\<rparr>]"
proof -
  have len: "length outs = length (toolUses llm)" by (simp add: outs length_dispatchAll)
  have lt: "length trs = length (toolUses llm)" by (simp add: trs len)
  have ids: "map toolUseId trs = map tu_toolUseId (toolUses llm)"
    using len unfolding trs by (intro nth_equalityI) simp_all
  have each: "\<forall>i<length trs.
            (\<forall>m. outs ! i = Inl m \<longrightarrow> result (trs ! i) = None \<and> error (trs ! i) = Some m)
          \<and> (\<forall>res. outs ! i = Inr res \<longrightarrow> result (trs ! i) = Some res \<and> error (trs ! i) = None)"
    using len lt by (simp add: trs)
  have unknown: "\<forall>i<length trs. tu_name (toolUses llm ! i) \<notin> set getMCPToolSpecs \<longrightarrow> (\<exists>m. outs ! i = Inl m)"
    using lt dispatchAll_unknown[of _ "toolUses llm" e st1] by (simp add: outs)
  have ne: "toolUses llm \<noteq> []" using conv need by (rule converse_needs_tools)
  obtain trs' tus srs st2 where x: "executeTools e (toolUses llm) ([], [], []) st1 = ((trs', tus, srs), st2)"
    by (cases "executeTools e (toolUses llm) ([], [], []) st1") auto
  have t: "trs' = trs"
    using executeTools_toolResults[of e "toolUses llm" "[]" "[]" "[]" st1] x by (simp add: trs outs)
  note f2 = executeTools_frame[OF x]
  note f1 = converse_frame[OF conv]
  obtain r3 st3 where k: "continueWithToolResults e trs st2 = (r3, st3)"
    by (cases "continueWithToolResults e trs st2")
  have "snd (runTurn e userMessage st) = st3"
    using conv need ne x k t by (auto simp: runTurn_def split: sum.splits)
  moreover have "sent st3 = sent st2 @ [\<lparr>in_modelId = modelId st2,
                in_messages = conversationHistory st2 @ [(user, map toolResultBlock trs)],
                in_system = None, in_toolConfig = None\<rparr>]"
    using continue_sent[of e trs st2] k by simp
  ultimately have folded: "sent (snd (runTurn e userMessage st)) =
           sent st1 @ [\<lparr>in_modelId = modelId st,
                        in_messages = conversationHistory st1 @ [(user, map toolResultBlock trs)],
                        in_system = None, in_toolConfig = None\<rparr>]"
    using f1 f2 by simp
  show ?thesis by (intro conjI len ids each unknown folded)
qed

theorem every_tool_call_gets_a_result_witness:
  "fst (converse toolsEnv ''find'' getMCPToolSpecs (Some (systemPrompt (initial ''p''))) (initial ''p''))
     = Inr \<lparr>response = [],
            toolUses = [\<lparr>tu_name = ''searchNotion'', tu_input = Some ''q'', tu_toolUseId = ''t1''\<rparr>,
                        \<lparr>tu_name = ''bogus'', tu_input = Some ''q'', tu_toolUseId = ''t2''\<rparr>,
                        \<lparr>tu_name = ''searchAsana'', tu_input = Some ''q'', tu_toolUseId = ''t3''\<rparr>],
            needsToolExecution = True\<rparr>
   \<and> dispatchAll toolsEnv
        [\<lparr>tu_name = ''searchNotion'', tu_input = Some ''q'', tu_toolUseId = ''t1''\<rparr>,
         \<lparr>tu_name = ''bogus'', tu_input = Some ''q'', tu_toolUseId = ''t2''\<rparr>,
         \<lparr>tu_name = ''searchAsana'', tu_input = Some ''q'', tu_toolUseId = ''t3''\<rparr>]
        (snd (converse toolsEnv ''find'' getMCPToolSpecs (Some (systemPrompt (initial ''p''))) (initial ''p'')))
     = [Inl ''Search failed for notion: down'', Inl ''Unknown tool: bogus'',
        Inr [mkResult ''asana-resource-0'' asana ''doc1'' ''q'' (Some ''2024-01-07'')]]
   \<and> in_messages (last (sent (snd (runTurn toolsEnv ''find'' (initial ''p'')))))
     = [(user, [TextBlock ''find'']),
        (assistant, [ToolUseBlock (Some ''searchNotion'') (Some ''q'') (Some ''t1''),
                     ToolUseBlock (Some ''bogus'') (Some ''q'') (Some ''t2''),
                     ToolUseBlock (Some ''searchAsana'') (Some ''q'') (Some ''t3'')]),
        (user, [ToolResultBlock ''t1'' (text_content ''Error: Search failed for notion: down''),
                ToolResultBlock ''t2'' (text_content ''Error: Unknown tool: bogus''),
                ToolResultBlock ''t3''
                  (json_content (Some [mkResult ''asana-resource-0'' asana ''doc1'' ''q'' (Some ''2024-01-07'')]))])]"
proof -
  let ?st = "initial ''p''"
  let ?uses = "[\<lparr>tu_name = ''searchNotion'', tu_input = Some ''q'', tu_toolUseId = ''t1''\<rparr>,
                \<lparr>tu_name = ''bogus'', tu_input = Some ''q'', tu_toolUseId = ''t2''\<rparr>,
                \<lparr>tu_name = ''searchAsana'', tu_input = Some ''q'', tu_toolUseId = ''t3''\<rparr>]"
  let ?llm = "\<lparr>response = [], toolUses = ?uses, needsToolExecution = True\<rparr>"
  let ?st1 = "snd (converse toolsEnv ''find'' getMCPToolSpecs (Some (systemPrompt ?st)) ?st)"
  have c: "fst (converse toolsEnv ''find'' getMCPToolSpecs (Some (systemPrompt ?st)) ?st) = Inr ?llm"
    by (simp add: toolsEnv_def eval_defs)
  then have h1: "converse toolsEnv ''find'' getMCPToolSpecs (Some (systemPrompt ?st)) ?st = (Inr ?llm, ?st1)"
    by (metis prod.collapse)
  have h2: "needsToolExecution ?llm" by simp
  have s1: "?st1 = ?st\<lparr>conversationHistory := [(user, [TextBlock ''find'']),
        (assistant, [ToolUseBlock (Some ''searchNotion'') (Some ''q'') (Some ''t1''),
                     ToolUseBlock (Some ''bogus'') (Some ''q'') (Some ''t2''),
                     ToolUseBlock (Some ''searchAsana'') (Some ''q'') (Some ''t3'')])],
       sent := [\<lparr>in_modelId = modelId ?st, in_messages = [(user, [TextBlock ''find''])],
                 in_system = Some ''p'', in_toolConfig = Some getMCPToolSpecs\<rparr>]\<rparr>"
    by (simp add: toolsEnv_def eval_defs)
  have d: "dispatchAll toolsEnv ?uses ?st1
     = [Inl ''Search failed for notion: down'', Inl ''Unknown tool: bogus'',
        Inr [mkResult ''asana-resource-0'' asana ''doc1'' ''q'' (Some ''2024-01-07'')]]"
    unfolding s1 by (simp add: toolsEnv_def eval_defs)
  from every_tool_call_gets_a_result[OF h1 h2 refl refl]
  have "sent (snd (runTurn toolsEnv ''find'' ?st)) =
           sent ?st1 @ [\<lparr>in_modelId = modelId ?st,
                        in_messages = conversationHistory ?st1 @ [(user, map toolResultBlock
                           (map (\<lambda>(u, out). toolResultOf u out) (zip (toolUses ?llm) (dispatchAll toolsEnv (toolUses ?llm) ?st1))))],
                        in_system = None, in_toolConfig = None\<rparr>]"
    by blast
  then have "in_messages (last (sent (snd (runTurn toolsEnv ''find'' ?st)))) =
      conversationHistory ?st1 @ [(user, map toolResultBlock
                           (map (\<lambda>(u, out). toolResultOf u out) (zip ?uses (dispatchAll toolsEnv ?uses ?st1))))]"
    by simp
  also have "\<dots> = [(user, [TextBlock ''find'']),
        (assistant, [ToolUseBlock (Some ''searchNotion'') (Some ''q'') (Some ''t1''),
                     ToolUseBlock (Some ''bogus'') (Some ''q'') (Some ''t2''),
                     ToolUseBlock (Some ''searchAsana'') (Some ''q'') (Some ''t3'')]),
        (user, [ToolResultBlock ''t1'' (text_content ''Error: Search failed for notion: down''),
                ToolResultBlock ''t2'' (text_content ''Error: Unknown tool: bogus''),
                ToolResultBlock ''t3''
                  (json_content (Some [mkResult ''asana-resource-0'' asana ''doc1'' ''q'' (Some ''2024-01-07'')]))])]"
    unfolding d unfolding s1 by (simp add: toolResultBlock_def)
  finally show ?thesis using c d by blast
qed

section \<open>Failed turns\<close>

text \<open>
  C10. A \<^verbatim>\<open>chat\<close> call on an existing conversation that throws leaves the
  conversation as it was, with its messages and its \<open>updatedAt\<close>; no conversation
  changes.
\<close>

theorem failed_chat_keeps_conversation:
  assumes "conversations st cid = Some c" and "cid \<noteq> []"
      and "chat e userMessage (Some cid) st = (Inl err, st')"
  shows "conversations st' cid = Some c \<and> conversations st' = conversations st"
proof -
  obtain r st1 where rt: "runTurn e userMessage st = (r, st1)"
    by (cases "runTurn e userMessage st")
  note f = runTurn_frame[OF rt]
  have "conversations st' = conversations st"
    using assms rt f
    by (auto simp: chat_def resolve_explicit split: if_splits sum.splits prod.splits)
  with assms(1) show ?thesis by simp
qed

theorem failed_chat_keeps_conversation_witness:
  "conversations (snd (createConversation failingEnv (initial ''p''))) ''conv_''
      = Some \<lparr>c_id = ''conv_'', messages = [], createdAt = 0, updatedAt = 1\<rparr>
   \<and> fst (chat failingEnv
             ''find q'' (Some ''conv_'')
             (snd (createConversation failingEnv (initial ''p''))))
      = Inl (ApiError ''Agent conversation failed: Tool result processing failed: throttled'' None)
   \<and> conversations (snd (chat failingEnv
             ''find q'' (Some ''conv_'')
             (snd (createConversation failingEnv (initial ''p''))))) ''conv_''
      = Some \<lparr>c_id = ''conv_'', messages = [], createdAt = 0, updatedAt = 1\<rparr>"
proof -
  let ?e = "failingEnv"
  let ?st = "snd (createConversation ?e (initial ''p''))"
  let ?err = "ApiError ''Agent conversation failed: Tool result processing failed: throttled'' None"
  have h1: "conversations ?st ''conv_'' = Some \<lparr>c_id = ''conv_'', messages = [], createdAt = 0, updatedAt = 1\<rparr>"
    by (simp add: failingEnv_def eval_defs)
  have h2: "''conv_'' \<noteq> []" by simp
  have f: "fst (chat ?e ''find q'' (Some ''conv_'') ?st) = Inl ?err"
    by (simp add: failingEnv_def eval_defs)
  then have h3: "chat ?e ''find q'' (Some ''conv_'') ?st = (Inl ?err, snd (chat ?e ''find q'' (Some ''conv_'') ?st))"
    by (metis prod.collapse)
  from failed_chat_keeps_conversation[OF h1 h2 h3] h1 f show ?thesis by blast
qed

section \<open>Conversations are append-only\<close>






















section \<open>The connection manager\<close>

lemma coordinatedI:
  assumes "\<And>s p. connectionPromises m s = Some p \<Longrightarrow> pendingAttempt m s p"
      and "\<And>s p. pendingAttempt m s p \<Longrightarrow> connectionPromises m s = Some p"
      and "\<And>s c. clients m s = Some c \<Longrightarrow> connectionPromises m s = None \<and> c < length (attempts m)"
      and "distinct (connects m)"
      and "\<And>p. p \<in> set (connects m) \<Longrightarrow> p < length (attempts m) \<and> a_stage (attempts m ! p) \<noteq> AwaitingToken"
  shows "coordinated m"
  unfolding coordinated_def using assms by blast

lemma promise_pending: "coordinated m \<Longrightarrow> connectionPromises m s = Some p \<Longrightarrow> pendingAttempt m s p"
  unfolding coordinated_def by blast

lemma pending_promise: "coordinated m \<Longrightarrow> pendingAttempt m s p \<Longrightarrow> connectionPromises m s = Some p"
  unfolding coordinated_def by blast

lemma client_no_promise:
  "coordinated m \<Longrightarrow> clients m s = Some c \<Longrightarrow> connectionPromises m s = None \<and> c < length (attempts m)"
  unfolding coordinated_def by blast

lemma connects_distinct: "coordinated m \<Longrightarrow> distinct (connects m)"
  unfolding coordinated_def by blast

lemma connects_started:
  "coordinated m \<Longrightarrow> p \<in> set (connects m) \<Longrightarrow> p < length (attempts m) \<and> a_stage (attempts m ! p) \<noteq> AwaitingToken"
  unfolding coordinated_def by blast

lemma coordinated_new: "coordinated newManager"
  by (rule coordinatedI) (simp_all add: newManager_def pendingAttempt_def)

lemma pending_setStage: "pendingAttempt (setStage p g m) s q = pendingAttempt m s q"
  unfolding pendingAttempt_def setStage_def by (cases "q = p") auto

lemma setStage_fields:
  "clients (setStage p g m) = clients m"
  "connectionPromises (setStage p g m) = connectionPromises m"
  "connects (setStage p g m) = connects m"
  "length (attempts (setStage p g m)) = length (attempts m)"
  by (simp_all add: setStage_def)

lemma setStage_stage:
  "q < length (attempts m) \<Longrightarrow>
     a_stage (attempts (setStage p g m) ! q) = (if q = p then g else a_stage (attempts m ! q))"
  by (simp add: setStage_def nth_list_update)

lemma coordinated_setStage:
  assumes c: "coordinated m" and g: "g \<noteq> AwaitingToken"
  shows "coordinated (setStage p g m)"
proof (rule coordinatedI)
  fix s q assume "connectionPromises (setStage p g m) s = Some q"
  then show "pendingAttempt (setStage p g m) s q"
    using promise_pending[OF c, of s q] by (simp add: setStage_fields pending_setStage)
next
  fix s q assume "pendingAttempt (setStage p g m) s q"
  then show "connectionPromises (setStage p g m) s = Some q"
    using pending_promise[OF c, of s q] by (simp add: setStage_fields pending_setStage)
next
  fix s k assume "clients (setStage p g m) s = Some k"
  then show "connectionPromises (setStage p g m) s = None \<and> k < length (attempts (setStage p g m))"
    using client_no_promise[OF c, of s k] by (simp add: setStage_fields)
next
  show "distinct (connects (setStage p g m))"
    using connects_distinct[OF c] by (simp add: setStage_fields)
next
  fix q assume "q \<in> set (connects (setStage p g m))"
  then have "q \<in> set (connects m)" by (simp add: setStage_fields)
  from connects_started[OF c this] g
  show "q < length (attempts (setStage p g m)) \<and> a_stage (attempts (setStage p g m) ! q) \<noteq> AwaitingToken"
    by (simp add: setStage_fields setStage_stage)
qed

lemma coordinated_connects:
  assumes c: "coordinated m" and p: "p < length (attempts m)" "a_stage (attempts m ! p) \<noteq> AwaitingToken"
      and new: "p \<notin> set (connects m)"
  shows "coordinated (m\<lparr>connects := connects m @ [p]\<rparr>)"
proof (rule coordinatedI)
  fix s q assume "connectionPromises (m\<lparr>connects := connects m @ [p]\<rparr>) s = Some q"
  then show "pendingAttempt (m\<lparr>connects := connects m @ [p]\<rparr>) s q"
    using promise_pending[OF c, of s q] by (simp add: pendingAttempt_def)
next
  fix s q assume "pendingAttempt (m\<lparr>connects := connects m @ [p]\<rparr>) s q"
  then show "connectionPromises (m\<lparr>connects := connects m @ [p]\<rparr>) s = Some q"
    using pending_promise[OF c, of s q] by (simp add: pendingAttempt_def)
next
  fix s k assume "clients (m\<lparr>connects := connects m @ [p]\<rparr>) s = Some k"
  then show "connectionPromises (m\<lparr>connects := connects m @ [p]\<rparr>) s = None
           \<and> k < length (attempts (m\<lparr>connects := connects m @ [p]\<rparr>))"
    using client_no_promise[OF c, of s k] by simp
next
  show "distinct (connects (m\<lparr>connects := connects m @ [p]\<rparr>))"
    using connects_distinct[OF c] new by simp
next
  fix q assume "q \<in> set (connects (m\<lparr>connects := connects m @ [p]\<rparr>))"
  then have "q \<in> set (connects m) \<or> q = p" by auto
  then show "q < length (attempts (m\<lparr>connects := connects m @ [p]\<rparr>))
           \<and> a_stage (attempts (m\<lparr>connects := connects m @ [p]\<rparr>) ! q) \<noteq> AwaitingToken"
    using connects_started[OF c, of q] p by auto
qed

lemma coordinated_tokenArrives:
  assumes c: "coordinated m"
  shows "coordinated (tokenArrives p token m)"
proof (cases "p < length (attempts m) \<and> a_stage (attempts m ! p) = AwaitingToken")
  case False
  then have "tokenArrives p token m = m" by (auto simp: tokenArrives_def)
  with c show ?thesis by simp
next
  case True
  show ?thesis
  proof (cases token)
    case False
    with True coordinated_setStage[OF c, of Rejected p] show ?thesis by (simp add: tokenArrives_def)
  next
    case tok: True
    let ?m1 = "setStage p Connecting m"
    have c1: "coordinated ?m1" using coordinated_setStage[OF c, of Connecting p] by simp
    have notin: "p \<notin> set (connects m)" using connects_started[OF c, of p] True by auto
    have "coordinated (?m1\<lparr>connects := connects ?m1 @ [p]\<rparr>)"
      using True notin by (intro coordinated_connects[OF c1]) (simp_all add: setStage_fields setStage_stage)
    then show ?thesis using True tok by (simp add: tokenArrives_def setStage_fields)
  qed
qed

lemma coordinated_connectSettles: "coordinated m \<Longrightarrow> coordinated (connectSettles p ok m)"
  unfolding connectSettles_def by (auto intro: coordinated_setStage)

lemma coordinated_evict:
  assumes c: "coordinated m"
  shows "coordinated (evict s m)"
proof (rule coordinatedI)
  fix s' q assume "connectionPromises (evict s m) s' = Some q"
  then show "pendingAttempt (evict s m) s' q"
    using promise_pending[OF c, of s' q] by (simp add: evict_def pendingAttempt_def)
next
  fix s' q assume "pendingAttempt (evict s m) s' q"
  then show "connectionPromises (evict s m) s' = Some q"
    using pending_promise[OF c, of s' q] by (simp add: evict_def pendingAttempt_def)
next
  fix s' k assume "clients (evict s m) s' = Some k"
  then have "clients m s' = Some k" by (simp add: evict_def split: if_splits)
  from client_no_promise[OF c this]
  show "connectionPromises (evict s m) s' = None \<and> k < length (attempts (evict s m))"
    by (simp add: evict_def)
next
  show "distinct (connects (evict s m))" using connects_distinct[OF c] by (simp add: evict_def)
next
  fix q assume "q \<in> set (connects (evict s m))"
  then have "q \<in> set (connects m)" by (simp add: evict_def)
  from connects_started[OF c this]
  show "q < length (attempts (evict s m)) \<and> a_stage (attempts (evict s m) ! q) \<noteq> AwaitingToken"
    by (simp add: evict_def)
qed

lemma coordinated_probe:
  "coordinated m \<Longrightarrow> coordinated (snd (getConnectionStatus s auth alive m))"
  by (simp add: getConnectionStatus_def coordinated_evict split: option.splits bool.splits)

lemma coordinated_getClient:
  assumes c: "coordinated m"
  shows "coordinated (snd (getClient s m))"
proof (cases "clients m s")
  case (Some k)
  with c show ?thesis by (simp add: getClient_def)
next
  case None
  show ?thesis
  proof (cases "connectionPromises m s")
    case (Some p)
    with None c show ?thesis by (simp add: getClient_def)
  next
    case cpNone: None
    let ?n = "length (attempts m)"
    let ?m' = "m\<lparr>attempts := attempts m @ [\<lparr>a_service = s, a_stage = AwaitingToken, a_resumed = False\<rparr>],
                 connectionPromises := (connectionPromises m)(s \<mapsto> ?n)\<rparr>"
    have m': "snd (getClient s m) = ?m'" using None cpNone by (simp add: getClient_def Let_def)
    have pend: "pendingAttempt ?m' s' q \<longleftrightarrow> pendingAttempt m s' q \<or> (q = ?n \<and> s' = s)" for s' q
      unfolding pendingAttempt_def by (auto simp: nth_append less_Suc_eq)
    have nopend: "\<not> pendingAttempt m s q" for q
      using pending_promise[OF c, of s q] cpNone by auto
    show ?thesis
      unfolding m'
    proof (rule coordinatedI)
      fix s' p assume a: "connectionPromises ?m' s' = Some p"
      show "pendingAttempt ?m' s' p"
      proof (cases "s' = s")
        case True
        with a have pn: "p = ?n" by simp
        show ?thesis unfolding pn True by (simp add: pend)
      next
        case False
        with a have "connectionPromises m s' = Some p" by simp
        from promise_pending[OF c this] show ?thesis by (simp add: pend)
      qed
    next
      fix s' p assume a: "pendingAttempt ?m' s' p"
      show "connectionPromises ?m' s' = Some p"
      proof (cases "s' = s")
        case True with a nopend show ?thesis by (simp add: pend)
      next
        case False
        with a have "pendingAttempt m s' p" by (simp add: pend)
        from pending_promise[OF c this] False show ?thesis by simp
      qed
    next
      fix s' k assume a: "clients ?m' s' = Some k"
      then have k: "clients m s' = Some k" by simp
      with None have "s' \<noteq> s" by auto
      with client_no_promise[OF c k]
      show "connectionPromises ?m' s' = None \<and> k < length (attempts ?m')" by simp
    next
      show "distinct (connects ?m')" using connects_distinct[OF c] by simp
    next
      fix p assume "p \<in> set (connects ?m')"
      then have "p \<in> set (connects m)" by simp
      from connects_started[OF c this]
      show "p < length (attempts ?m') \<and> a_stage (attempts ?m' ! p) \<noteq> AwaitingToken"
        by (simp add: nth_append)
    qed
  qed
qed

lemma coordinated_resume:
  assumes c: "coordinated m"
  shows "coordinated (resume p m)"
proof (cases "p < length (attempts m) \<and> \<not> a_resumed (attempts m ! p)
              \<and> (a_stage (attempts m ! p) = Resolved \<or> a_stage (attempts m ! p) = Rejected)")
  case False
  then have "resume p m = m" by (auto simp: resume_def Let_def split: stage.splits)
  with c show ?thesis by simp
next
  case True
  let ?s = "a_service (attempts m ! p)"
  let ?as = "(attempts m)[p := (attempts m ! p)\<lparr>a_resumed := True\<rparr>]"
  have pp: "pendingAttempt m ?s p" using True by (simp add: pendingAttempt_def)
  have cp: "connectionPromises m ?s = Some p" using pending_promise[OF c pp] .
  have noclient: "clients m ?s = None"
    using client_no_promise[OF c, of ?s] cp by (cases "clients m ?s") auto
  have fields: "attempts (resume p m) = ?as" "connects (resume p m) = connects m"
    "connectionPromises (resume p m) = (connectionPromises m)(?s := None)"
    "clients (resume p m) = (if a_stage (attempts m ! p) = Resolved then (clients m)(?s \<mapsto> p) else clients m)"
    using True by (auto simp: resume_def Let_def split: stage.splits)
  have pend: "pendingAttempt (resume p m) s' q \<longleftrightarrow> pendingAttempt m s' q \<and> q \<noteq> p" for s' q
    unfolding pendingAttempt_def fields by (cases "q = p") auto
  have only: "pendingAttempt m ?s q \<Longrightarrow> q = p" for q
    using pending_promise[OF c, of ?s q] cp by simp
  show ?thesis
  proof (rule coordinatedI)
    fix s' q assume a: "connectionPromises (resume p m) s' = Some q"
    then have "s' \<noteq> ?s" "connectionPromises m s' = Some q" by (auto simp: fields split: if_splits)
    from promise_pending[OF c this(2)] have q: "pendingAttempt m s' q" .
    with \<open>s' \<noteq> ?s\<close> have "q \<noteq> p" by (auto simp: pendingAttempt_def)
    with q show "pendingAttempt (resume p m) s' q" by (simp add: pend)
  next
    fix s' q assume a: "pendingAttempt (resume p m) s' q"
    then have q: "pendingAttempt m s' q" "q \<noteq> p" by (simp_all add: pend)
    with only have "s' \<noteq> ?s" by auto
    with pending_promise[OF c q(1)] show "connectionPromises (resume p m) s' = Some q"
      by (simp add: fields)
  next
    fix s' k assume a: "clients (resume p m) s' = Some k"
    show "connectionPromises (resume p m) s' = None \<and> k < length (attempts (resume p m))"
    proof (cases "s' = ?s")
      case True
      with a noclient have "k = p" by (auto simp: fields split: if_splits)
      with True \<open>p < length (attempts m) \<and> _\<close> show ?thesis by (simp add: fields)
    next
      case False
      with a have "clients m s' = Some k" by (auto simp: fields split: if_splits)
      from client_no_promise[OF c this] False show ?thesis by (simp add: fields)
    qed
  next
    show "distinct (connects (resume p m))" using connects_distinct[OF c] by (simp add: fields)
  next
    fix q assume "q \<in> set (connects (resume p m))"
    then have "q \<in> set (connects m)" by (simp add: fields)
    from connects_started[OF c this]
    show "q < length (attempts (resume p m)) \<and> a_stage (attempts (resume p m) ! q) \<noteq> AwaitingToken"
      by (cases "q = p") (simp_all add: fields)
  qed
qed

lemma coordinated_step: "coordinated m \<Longrightarrow> coordinated (step m ev)"
  by (cases ev)
     (simp_all add: coordinated_getClient coordinated_tokenArrives coordinated_connectSettles
        coordinated_resume coordinated_probe coordinated_evict)

lemma coordinated_run: "coordinated m \<Longrightarrow> coordinated (foldl step m evs)"
  by (induction evs arbitrary: m) (simp_all add: coordinated_step)

lemma count_list_distinct: "distinct xs \<Longrightarrow> count_list xs x \<le> 1"
  by (induction xs) (auto simp: count_list_0_iff)

lemmas manager_defs = newManager_def getClient_def tokenArrives_def connectSettles_def resume_def
  setStage_def evict_def getConnectionStatus_def pendingAttempt_def Let_def

lemma settled_eval:
  "foldl step newManager [GetClient notion, GetClient notion, TokenArrives 0 True, GetClient notion,
                          ConnectSettles 0 True, GetClient notion]
   = \<lparr>clients = Map.empty, connectionPromises = [notion \<mapsto> 0],
      attempts = [\<lparr>a_service = notion, a_stage = Resolved, a_resumed = False\<rparr>], connects = [0]\<rparr>"
  by (simp add: manager_defs)

lemma connected_eval:
  "foldl step newManager [GetClient notion, GetClient notion, TokenArrives 0 True, GetClient notion,
                          ConnectSettles 0 True, GetClient notion, Resume 0]
   = \<lparr>clients = [notion \<mapsto> 0], connectionPromises = Map.empty,
      attempts = [\<lparr>a_service = notion, a_stage = Resolved, a_resumed = True\<rparr>], connects = [0]\<rparr>"
  by (simp add: manager_defs)

lemma map_update_same: "(map f xs)[p := f (xs ! p)] = map f xs"
proof (cases "p < length xs")
  case True
  then have "f (xs ! p) = map f xs ! p" by simp
  then show ?thesis by (simp only: list_update_id)
next
  case False
  then have "length (map f xs) \<le> p" by simp
  then show ?thesis by (rule list_update_beyond)
qed

lemma services_setStage: "map a_service (attempts (setStage p g m)) = map a_service (attempts m)"
  unfolding setStage_def by (simp add: map_update map_update_same)

lemma services_resume: "map a_service (attempts (resume p m)) = map a_service (attempts m)"
  unfolding resume_def Let_def
  by (auto simp: map_update map_update_same split: stage.splits)

lemma shared_step:
  assumes c: "coordinated m" and cp: "connectionPromises m s = Some p" and ev: "ev \<noteq> Resume p"
  shows "connectionPromises (step m ev) s = Some p
       \<and> count_list (map a_service (attempts (step m ev))) s = count_list (map a_service (attempts m)) s"
proof (cases ev)
  case (GetClient s')
  show ?thesis
  proof (cases "s' = s")
    case True
    have "clients m s = None"
    proof (cases "clients m s")
      case (Some k)
      from client_no_promise[OF c Some] cp show ?thesis by simp
    qed simp
    with cp True GetClient show ?thesis by (simp add: getClient_def)
  next
    case False
    with cp GetClient show ?thesis
      by (auto simp: getClient_def Let_def split: option.splits)
  qed
next
  case (TokenArrives q t)
  with cp show ?thesis
    using services_setStage[of q Connecting m] services_setStage[of q Rejected m]
    by (auto simp: tokenArrives_def setStage_fields setStage_def)
next
  case (ConnectSettles q ok)
  with cp show ?thesis
    using services_setStage[of q Resolved m] services_setStage[of q Rejected m]
    by (auto simp: connectSettles_def setStage_fields)
next
  case (Resume q)
  with ev have qp: "q \<noteq> p" by simp
  have svc: "map a_service (attempts (resume q m)) = map a_service (attempts m)" by (rule services_resume)
  have "connectionPromises (resume q m) s = Some p"
  proof (cases "q < length (attempts m) \<and> \<not> a_resumed (attempts m ! q)")
    case False
    then have "resume q m = m" by (auto simp: resume_def)
    with cp show ?thesis by simp
  next
    case True
    then have "pendingAttempt m (a_service (attempts m ! q)) q" by (simp add: pendingAttempt_def)
    from pending_promise[OF c this] cp qp have "a_service (attempts m ! q) \<noteq> s" by auto
    with cp True show ?thesis by (auto simp: resume_def Let_def split: stage.splits)
  qed
  with svc Resume show ?thesis by simp
next
  case (Probe s' a b)
  with cp show ?thesis
    by (auto simp: getConnectionStatus_def evict_def split: option.splits bool.splits)
next
  case (Evicted s')
  with cp show ?thesis by (simp add: evict_def)
qed

lemma shared_run:
  assumes "coordinated m" and "connectionPromises m s = Some p" and "Resume p \<notin> set evs"
  shows "coordinated (foldl step m evs) \<and> connectionPromises (foldl step m evs) s = Some p
       \<and> count_list (map a_service (attempts (foldl step m evs))) s
           = count_list (map a_service (attempts m)) s"
  using assms
proof (induction evs arbitrary: m)
  case Nil
  then show ?case by simp
next
  case (Cons ev evs)
  from Cons.prems have ev: "ev \<noteq> Resume p" and rest: "Resume p \<notin> set evs" by auto
  note s1 = shared_step[OF Cons.prems(1,2) ev]
  have c1: "coordinated (step m ev)" using Cons.prems(1) by (rule coordinated_step)
  from Cons.IH[OF c1 _ rest] s1 show ?case by simp
qed

lemma first_acquire:
  assumes "connectionPromises m s = None" and "clients m s = None"
  shows "connectionPromises (step m (GetClient s)) s = Some (length (attempts m))
       \<and> count_list (map a_service (attempts (step m (GetClient s)))) s
           = count_list (map a_service (attempts m)) s + 1"
  using assms by (simp add: getClient_def Let_def)

text \<open>
  C4. In every state \<open>m\<close> the manager reaches: a service has at most one pending
  attempt; the stored promise of a service is exactly its pending attempt; a stored
  promise and a stored client never coexist for a service; when the attempt has settled,
  the \<^verbatim>\<open>getClient\<close> call that started it removes the stored promise, storing the
  client on success and nothing on failure; a \<^verbatim>\<open>getClient\<close> call made while a
  promise is stored returns that promise and starts nothing; and no attempt calls
  \<^verbatim>\<open>client.connect\<close> more than once. Moreover, when a \<^verbatim>\<open>getClient\<close> call starts
  an attempt for a service, then after any later events, as long as that call has not
  run on, the service has exactly one attempt more than before, its stored promise is
  still that attempt, and a further \<^verbatim>\<open>getClient\<close> call shares it.
\<close>

theorem single_connection_attempt:
  assumes reach: "m = foldl step newManager evs"
  shows "(pendingAttempt m s p \<and> pendingAttempt m s q \<longrightarrow> p = q)
       \<and> (connectionPromises m s = Some p \<longleftrightarrow> pendingAttempt m s p)
       \<and> \<not> (clients m s \<noteq> None \<and> connectionPromises m s \<noteq> None)
       \<and> (connectionPromises m s = Some p \<and> a_stage (attempts m ! p) = Resolved \<longrightarrow>
            connectionPromises (resume p m) s = None \<and> clients (resume p m) s = Some p)
       \<and> (connectionPromises m s = Some p \<and> a_stage (attempts m ! p) = Rejected \<longrightarrow>
            connectionPromises (resume p m) s = None \<and> clients (resume p m) s = None)
       \<and> (connectionPromises m s = Some p \<longrightarrow> getClient s m = (Shared p, m))
       \<and> count_list (connects m) p \<le> 1
       \<and> (clients m s = None \<and> connectionPromises m s = None
            \<and> Resume (length (attempts m)) \<notin> set later \<longrightarrow>
          connectionPromises (foldl step (step m (GetClient s)) later) s = Some (length (attempts m))
          \<and> count_list (map a_service (attempts (foldl step (step m (GetClient s)) later))) s
              = count_list (map a_service (attempts m)) s + 1
          \<and> fst (getClient s (foldl step (step m (GetClient s)) later)) = Shared (length (attempts m)))"
proof -
  have c: "coordinated m" unfolding reach by (rule coordinated_run[OF coordinated_new])
  have one: "pendingAttempt m s p \<and> pendingAttempt m s q \<longrightarrow> p = q"
    using pending_promise[OF c, of s p] pending_promise[OF c, of s q] by auto
  have iff: "connectionPromises m s = Some p \<longleftrightarrow> pendingAttempt m s p"
    using pending_promise[OF c, of s p] promise_pending[OF c, of s p] by blast
  have excl: "\<not> (clients m s \<noteq> None \<and> connectionPromises m s \<noteq> None)"
  proof (cases "clients m s")
    case None
    then show ?thesis by simp
  next
    case (Some k)
    from client_no_promise[OF c Some] show ?thesis by simp
  qed
  have noclient: "clients m s = None" if "connectionPromises m s = Some p"
  proof (cases "clients m s")
    case None
    then show ?thesis .
  next
    case (Some k)
    from client_no_promise[OF c Some] that show ?thesis by simp
  qed
  have ok: "connectionPromises m s = Some p \<and> a_stage (attempts m ! p) = Resolved \<longrightarrow>
            connectionPromises (resume p m) s = None \<and> clients (resume p m) s = Some p"
  proof
    assume a: "connectionPromises m s = Some p \<and> a_stage (attempts m ! p) = Resolved"
    then have "pendingAttempt m s p" using iff by simp
    with a show "connectionPromises (resume p m) s = None \<and> clients (resume p m) s = Some p"
      by (simp add: resume_def pendingAttempt_def Let_def)
  qed
  have failed: "connectionPromises m s = Some p \<and> a_stage (attempts m ! p) = Rejected \<longrightarrow>
            connectionPromises (resume p m) s = None \<and> clients (resume p m) s = None"
  proof
    assume a: "connectionPromises m s = Some p \<and> a_stage (attempts m ! p) = Rejected"
    then have "pendingAttempt m s p" using iff by simp
    with a noclient show "connectionPromises (resume p m) s = None \<and> clients (resume p m) s = None"
      by (simp add: resume_def pendingAttempt_def Let_def)
  qed
  have share: "connectionPromises m s = Some p \<longrightarrow> getClient s m = (Shared p, m)"
    using noclient by (auto simp: getClient_def)
  have cnt: "count_list (connects m) p \<le> 1"
    using connects_distinct[OF c] by (rule count_list_distinct)
  have once: "clients m s = None \<and> connectionPromises m s = None
            \<and> Resume (length (attempts m)) \<notin> set later \<longrightarrow>
          connectionPromises (foldl step (step m (GetClient s)) later) s = Some (length (attempts m))
          \<and> count_list (map a_service (attempts (foldl step (step m (GetClient s)) later))) s
              = count_list (map a_service (attempts m)) s + 1
          \<and> fst (getClient s (foldl step (step m (GetClient s)) later)) = Shared (length (attempts m))"
  proof
    let ?m1 = "step m (GetClient s)"
    let ?m2 = "foldl step ?m1 later"
    assume a: "clients m s = None \<and> connectionPromises m s = None
            \<and> Resume (length (attempts m)) \<notin> set later"
    then have f: "connectionPromises ?m1 s = Some (length (attempts m))"
        "count_list (map a_service (attempts ?m1)) s = count_list (map a_service (attempts m)) s + 1"
      using first_acquire[of m s] by simp_all
    have c1: "coordinated ?m1" using c by (rule coordinated_step)
    from a have nr: "Resume (length (attempts m)) \<notin> set later" by simp
    from shared_run[OF c1 f(1) nr] have c2: "coordinated ?m2"
      and p2: "connectionPromises ?m2 s = Some (length (attempts m))"
      and n2: "count_list (map a_service (attempts ?m2)) s = count_list (map a_service (attempts ?m1)) s"
      by simp_all
    have "clients ?m2 s = None"
    proof (cases "clients ?m2 s")
      case None
      then show ?thesis .
    next
      case (Some k)
      from client_no_promise[OF c2 Some] p2 show ?thesis by simp
    qed
    with p2 have "fst (getClient s ?m2) = Shared (length (attempts m))" by (simp add: getClient_def)
    with p2 n2 f(2) show "connectionPromises ?m2 s = Some (length (attempts m))
          \<and> count_list (map a_service (attempts ?m2)) s = count_list (map a_service (attempts m)) s + 1
          \<and> fst (getClient s ?m2) = Shared (length (attempts m))" by simp
  qed
  show ?thesis by (intro conjI one iff excl ok failed share cnt once)
qed

theorem single_connection_attempt_witness:
  "count_list (map a_service (attempts (foldl step (step newManager (GetClient notion))
      [GetClient notion, TokenArrives 0 True, GetClient asana, GetClient notion, ConnectSettles 0 True,
       GetClient notion]))) notion = 1
   \<and> connects (foldl step (step newManager (GetClient notion))
      [GetClient notion, TokenArrives 0 True, GetClient asana, GetClient notion, ConnectSettles 0 True,
       GetClient notion]) = [0]
   \<and> connectionPromises (foldl step (step newManager (GetClient notion))
      [GetClient notion, TokenArrives 0 True, GetClient asana, GetClient notion, ConnectSettles 0 True,
       GetClient notion]) notion = Some 0
   \<and> fst (getClient notion (foldl step (step newManager (GetClient notion))
      [GetClient notion, TokenArrives 0 True, GetClient asana, GetClient notion, ConnectSettles 0 True,
       GetClient notion])) = Shared 0
   \<and> connectionPromises (resume 0 (foldl step newManager [GetClient notion, GetClient notion,
                                    TokenArrives 0 True, GetClient notion, ConnectSettles 0 True,
                                    GetClient notion])) notion = None
   \<and> clients (resume 0 (foldl step newManager [GetClient notion, GetClient notion,
                                    TokenArrives 0 True, GetClient notion, ConnectSettles 0 True,
                                    GetClient notion])) notion = Some 0"
proof -
  let ?later = "[GetClient notion, TokenArrives 0 True, GetClient asana, GetClient notion,
                 ConnectSettles 0 True, GetClient notion]"
  let ?m2 = "foldl step (step newManager (GetClient notion)) ?later"
  let ?m = "foldl step newManager [GetClient notion, GetClient notion, TokenArrives 0 True,
                                    GetClient notion, ConnectSettles 0 True, GetClient notion]"
  have h: "clients newManager notion = None \<and> connectionPromises newManager notion = None
      \<and> Resume (length (attempts newManager)) \<notin> set ?later"
    by (simp add: newManager_def)
  have z: "length (attempts newManager) = 0" "count_list (map a_service (attempts newManager)) notion = 0"
    by (simp_all add: newManager_def)
  note t0 = single_connection_attempt[where evs = "[]" and m = newManager and s = notion
      and later = ?later and p = 0 and q = 0]
  have first: "connectionPromises ?m2 notion = Some 0
     \<and> count_list (map a_service (attempts ?m2)) notion = 1
     \<and> fst (getClient notion ?m2) = Shared 0"
    using t0 h unfolding z by simp
  have cn: "connects ?m2 = [0]" by (simp add: manager_defs)
  have cp: "connectionPromises ?m notion = Some 0" unfolding settled_eval by simp
  have stg: "a_stage (attempts ?m ! 0) = Resolved" unfolding settled_eval by simp
  note t = single_connection_attempt[OF refl, where evs = "[GetClient notion, GetClient notion,
     TokenArrives 0 True, GetClient notion, ConnectSettles 0 True, GetClient notion]"
     and s = notion and p = 0 and q = 0]
  from t cp stg have r: "connectionPromises (resume 0 ?m) notion = None \<and> clients (resume 0 ?m) notion = Some 0"
    by blast
  from first cn r show ?thesis by blast
qed

text \<open>
  C9. In a reachable state with a stored client \<open>c\<close> for a service, a probe with a
  valid credential whose \<^verbatim>\<open>listTools\<close> call fails reports
  \<^verbatim>\<open>connected = false, needsAuth = false\<close> and deletes the client; the next
  \<^verbatim>\<open>getClient\<close> then starts a new attempt, whose client is not \<open>c\<close>. A probe
  without a credential reports \<^verbatim>\<open>needsAuth = true\<close> and changes nothing.
\<close>

theorem failed_probe_evicts:
  assumes reach: "m = foldl step newManager evs"
      and live: "clients m s = Some c"
  shows "getConnectionStatus s (Some True) False m = (\<lparr>connected = False, needsAuth = False\<rparr>, evict s m)
       \<and> clients (evict s m) s = None
       \<and> fst (getClient s (evict s m)) = Started (length (attempts m))
       \<and> c < length (attempts m)
       \<and> attempts (snd (getClient s (evict s m)))
           = attempts m @ [\<lparr>a_service = s, a_stage = AwaitingToken, a_resumed = False\<rparr>]
       \<and> fst (getConnectionStatus s (Some False) alive m) = \<lparr>connected = False, needsAuth = True\<rparr>
       \<and> snd (getConnectionStatus s (Some False) alive m) = m"
proof -
  have c: "coordinated m" unfolding reach by (rule coordinated_run[OF coordinated_new])
  from client_no_promise[OF c live] have np: "connectionPromises m s = None" and lt: "c < length (attempts m)"
    by simp_all
  have p1: "getConnectionStatus s (Some True) False m = (\<lparr>connected = False, needsAuth = False\<rparr>, evict s m)"
    using live by (simp add: getConnectionStatus_def)
  have p2: "clients (evict s m) s = None" by (simp add: evict_def)
  have p3: "fst (getClient s (evict s m)) = Started (length (attempts m))"
    using np by (simp add: getClient_def evict_def Let_def)
  have p4: "attempts (snd (getClient s (evict s m)))
           = attempts m @ [\<lparr>a_service = s, a_stage = AwaitingToken, a_resumed = False\<rparr>]"
    using np by (simp add: getClient_def evict_def Let_def)
  have p5: "fst (getConnectionStatus s (Some False) alive m) = \<lparr>connected = False, needsAuth = True\<rparr>"
    "snd (getConnectionStatus s (Some False) alive m) = m"
    by (simp_all add: getConnectionStatus_def)
  show ?thesis by (intro conjI p1 p2 p3 lt p4 p5)
qed

theorem failed_probe_evicts_witness:
  "clients (foldl step newManager [GetClient notion, GetClient notion, TokenArrives 0 True,
              GetClient notion, ConnectSettles 0 True, GetClient notion, Resume 0]) notion = Some 0
   \<and> fst (getConnectionStatus notion (Some True) False
            (foldl step newManager [GetClient notion, GetClient notion, TokenArrives 0 True,
              GetClient notion, ConnectSettles 0 True, GetClient notion, Resume 0]))
       = \<lparr>connected = False, needsAuth = False\<rparr>
   \<and> fst (getClient notion (snd (getConnectionStatus notion (Some True) False
            (foldl step newManager [GetClient notion, GetClient notion, TokenArrives 0 True,
              GetClient notion, ConnectSettles 0 True, GetClient notion, Resume 0]))))
       = Started 1
   \<and> fst (getClient notion
            (foldl step newManager [GetClient notion, GetClient notion, TokenArrives 0 True,
              GetClient notion, ConnectSettles 0 True, GetClient notion, Resume 0]))
       = Existing 0"
proof -
  let ?m = "foldl step newManager [GetClient notion, GetClient notion, TokenArrives 0 True,
              GetClient notion, ConnectSettles 0 True, GetClient notion, Resume 0]"
  have live: "clients ?m notion = Some 0" unfolding connected_eval by simp
  note t = failed_probe_evicts[OF refl live]
  from t have p: "getConnectionStatus notion (Some True) False ?m
      = (\<lparr>connected = False, needsAuth = False\<rparr>, evict notion ?m)" by blast
  from t have g: "fst (getClient notion (evict notion ?m)) = Started (length (attempts ?m))" by blast
  have l: "length (attempts ?m) = 1" unfolding connected_eval by simp
  have e: "fst (getClient notion ?m) = Existing 0" unfolding connected_eval by (simp add: getClient_def)
  from p have p1: "fst (getConnectionStatus notion (Some True) False ?m)
      = \<lparr>connected = False, needsAuth = False\<rparr>"
    and p2: "snd (getConnectionStatus notion (Some True) False ?m) = evict notion ?m" by simp_all
  from g l have "fst (getClient notion (snd (getConnectionStatus notion (Some True) False ?m))) = Started 1"
    unfolding p2 by simp
  with live p1 e show ?thesis by blast
qed

end
